theory Spec2Isabelle
  imports Main "HOL-Library.AList" "HOL-Library.Sublist" "HOL-Library.Word"
begin

section \<open>An in-memory file system keyed by path strings\<close>

text \<open>
  A shallow embedding of \<^verbatim>\<open>memFS.cpp\<close>. The two globals of the program, the
  \<^verbatim>\<open>std::unordered_map\<close> from path to entry and the current directory, become a record
  that every command takes and returns. The map is an association list with one pair per
  key: its order stands for the unspecified iteration order of the hash map, \<open>map_of\<close>
  is \<^verbatim>\<open>find\<close>, \<open>AList.update\<close> is \<^verbatim>\<open>m[k] = v\<close> and \<open>AList.delete\<close> is \<^verbatim>\<open>erase\<close>.
  \<^verbatim>\<open>getCurrentDateString()\<close> is the parameter \<open>now\<close> of each command. What the program
  prints on \<^verbatim>\<open>std::cerr\<close> is the error value a command returns.
\<close>

subsection \<open>Data model\<close>

datatype EntryType = FILE | DIRECTORY

record FSEntry =
  data :: string
  sizeInBytes :: "64 word"
  creationDate :: string
  modificationDate :: string
  type :: EntryType

type_synonym store = "(string \<times> FSEntry) list"

record fs_state =
  memoryFileSystem :: store
  currentDirectory :: string

text \<open>One constructor per kind of message the program writes to \<^verbatim>\<open>std::cerr\<close>.\<close>

datatype error =
    InvalidArgument         \<comment> \<open>a usage message\<close>
  | NotFound                \<comment> \<open>\<^verbatim>\<open>does not exist\<close>, \<^verbatim>\<open>Source does not exist\<close>\<close>
  | AlreadyExists           \<comment> \<open>\<^verbatim>\<open>already exists\<close>\<close>
  | NotAFile                \<comment> \<open>\<^verbatim>\<open>does not exist or is not a file\<close>\<close>
  | NotADirectory           \<comment> \<open>\<^verbatim>\<open>Directory does not exist\<close>\<close>
  | DirectoryNotEmpty       \<comment> \<open>\<^verbatim>\<open>Directory not empty\<close>\<close>
  | ParentCreationFailed    \<comment> \<open>\<^verbatim>\<open>Failed to create parent directories\<close>\<close>
  | CannotOpenFile          \<comment> \<open>\<^verbatim>\<open>Could not open file for writing\<close>, \<^verbatim>\<open>for reading\<close>\<close>
  | StoullInvalidArgument   \<comment> \<open>\<^verbatim>\<open>std::invalid_argument\<close> thrown by \<^verbatim>\<open>std::stoull\<close>\<close>
  | StoullOutOfRange        \<comment> \<open>\<^verbatim>\<open>std::out_of_range\<close> thrown by \<^verbatim>\<open>std::stoull\<close>\<close>

type_synonym result = "error + unit"

subsection \<open>Strings and streams\<close>

text \<open>\<^verbatim>\<open>s[0]\<close> of a \<^verbatim>\<open>const std::string\<close>: the terminating NUL when the string is empty.\<close>

definition front :: "string \<Rightarrow> char" where
  "front s = (case s of [] \<Rightarrow> CHR 0x00 | c # _ \<Rightarrow> c)"

text \<open>\<^verbatim>\<open>s.find_last_of(c)\<close>; \<open>None\<close> is \<^verbatim>\<open>npos\<close>.\<close>

definition find_last_of :: "string \<Rightarrow> char \<Rightarrow> nat option" where
  "find_last_of s c =
     (if c \<in> set s then Some (length s - Suc (length (takeWhile (\<lambda>x. x \<noteq> c) (rev s))))
      else None)"

text \<open>
  \<^verbatim>\<open>std::getline(stream, token, delim)\<close> on the unread rest of a stream: at the end of
  the input it fails; otherwise it extracts the characters before the next delimiter and
  discards the delimiter. The result is the token and the new rest.
\<close>

fun getline :: "char \<Rightarrow> string \<Rightarrow> (string \<times> string) option" where
  "getline delim [] = None"
| "getline delim (c # cs) =
     Some (takeWhile (\<lambda>x. x \<noteq> delim) (c # cs), drop 1 (dropWhile (\<lambda>x. x \<noteq> delim) (c # cs)))"

text \<open>The tokens of \<^verbatim>\<open>while (std::getline(stream, token, delim))\<close>, in order.\<close>

function getlines :: "char \<Rightarrow> string \<Rightarrow> string list" where
  "getlines delim s =
     (case getline delim s of
        None \<Rightarrow> []
      | Some (token, rest) \<Rightarrow> token # getlines delim rest)"
  by pat_completeness auto
termination
proof (relation "measure (\<lambda>(delim, s). length s)")
  show "wf (measure (\<lambda>(delim, s). length s))" by simp
next
  fix delim :: char and s x2 token rest
  assume "getline delim s = Some x2" and "(token, rest) = x2"
  then have "length rest < length s"
    using length_dropWhile_le [of "\<lambda>x. x \<noteq> delim" s] by (cases s) auto
  then show "((delim, rest), (delim, s)) \<in> measure (\<lambda>(delim, s). length s)" by simp
qed

declare getlines.simps [simp del]

text \<open>\<^verbatim>\<open>tokenize(input, delimiter)\<close>: the non-empty stretches between delimiters.\<close>

function tokenize :: "string \<Rightarrow> char \<Rightarrow> string list" where
  "tokenize input delimiter =
     (if delimiter \<in> set input then
        (let token = takeWhile (\<lambda>x. x \<noteq> delimiter) input;
             rest = drop 1 (dropWhile (\<lambda>x. x \<noteq> delimiter) input)
         in (if token \<noteq> [] then [token] else []) @ tokenize rest delimiter)
      else if input \<noteq> [] then [input] else [])"
  by pat_completeness auto
termination
proof (relation "measure (\<lambda>(input, delimiter). length input)")
  show "wf (measure (\<lambda>(input, delimiter). length input))" by simp
next
  fix input :: string and delimiter :: char and token rest
  assume "delimiter \<in> set input"
    and "rest = drop 1 (dropWhile (\<lambda>x. x \<noteq> delimiter) input)"
  then have "length rest < length input"
    using length_dropWhile_le [of "\<lambda>x. x \<noteq> delimiter" input] by (cases input) auto
  then show "((rest, delimiter), (input, delimiter)) \<in> measure (\<lambda>(input, delimiter). length input)"
    by simp
qed

declare tokenize.simps [simp del]

subsection \<open>Paths\<close>

text \<open>The body of the component loop of \<^verbatim>\<open>normalizePath\<close>.\<close>

definition push_component :: "string list \<Rightarrow> string \<Rightarrow> string list" where
  "push_component components component =
     (if component = ''.'' then components
      else if component = ''..'' then (if components \<noteq> [] then butlast components else components)
      else if component \<noteq> [] then components @ [component]
      else components)"

definition normalizePath :: "string \<Rightarrow> string \<Rightarrow> string" where
  "normalizePath cwd path =
     (let normalizedPath =
            (if path = [] \<or> front path \<noteq> CHR ''/''
             then cwd @ (if cwd \<noteq> ''/'' \<and> front path \<noteq> CHR ''/'' then ''/'' else []) @ path
             else path);
          components = foldl push_component [] (getlines CHR ''/'' normalizedPath);
          normalizedPath = ''/'' @ concat (map (\<lambda>comp. comp @ ''/'') components)
      in if length normalizedPath > 1 \<and> last normalizedPath = CHR ''/''
         then butlast normalizedPath else normalizedPath)"

definition getDirectoryFromPath :: "string \<Rightarrow> string" where
  "getDirectoryFromPath path =
     (case find_last_of path CHR ''/'' of
        None \<Rightarrow> ''/''
      | Some lastSlash \<Rightarrow> take lastSlash path)"

definition getFilenameFromPath :: "string \<Rightarrow> string" where
  "getFilenameFromPath path =
     (case find_last_of path CHR ''/'' of
        None \<Rightarrow> path
      | Some lastSlash \<Rightarrow> drop (lastSlash + 1) path)"

subsection \<open>The store\<close>

definition directoryExists :: "store \<Rightarrow> string \<Rightarrow> bool" where
  "directoryExists fs path =
     (case map_of fs path of None \<Rightarrow> False | Some entry \<Rightarrow> type entry = DIRECTORY)"

definition fileExists :: "store \<Rightarrow> string \<Rightarrow> bool" where
  "fileExists fs path =
     (case map_of fs path of None \<Rightarrow> False | Some entry \<Rightarrow> type entry = FILE)"

text \<open>The entry that \<^verbatim>\<open>ensureParentDirectoriesExist\<close>, \<^verbatim>\<open>addNewEntryInternal\<close> and
  \<^verbatim>\<open>initializeFileSystem\<close> build: no data, size 0, both dates the current date.\<close>

definition emptyEntry :: "string \<Rightarrow> EntryType \<Rightarrow> FSEntry" where
  "emptyEntry now t =
     \<lparr>data = [], sizeInBytes = 0, creationDate = now, modificationDate = now, type = t\<rparr>"

function ensureParentDirectoriesExist :: "string \<Rightarrow> string \<Rightarrow> store \<Rightarrow> bool \<times> store" where
  "ensureParentDirectoriesExist now path fs =
     (let dirPath = getDirectoryFromPath path in
      if dirPath = ''/'' then (True, fs)
      else if \<not> directoryExists fs dirPath then
        (case ensureParentDirectoriesExist now dirPath fs of
           (False, fs') \<Rightarrow> (False, fs')
         | (True, fs') \<Rightarrow> (True, AList.update dirPath (emptyEntry now DIRECTORY) fs'))
      else (True, fs))"
  by pat_completeness auto
termination
proof (relation "measure (\<lambda>(now, path, fs). length path)")
  show "wf (measure (\<lambda>(now, path, fs). length path))" by simp
next
  fix now path :: string and fs :: store and dirPath
  assume d: "dirPath = getDirectoryFromPath path" and "dirPath \<noteq> ''/''"
  then obtain i where "find_last_of path CHR ''/'' = Some i" and t: "dirPath = take i path"
    by (auto simp: getDirectoryFromPath_def split: option.splits)
  then have "CHR ''/'' \<in> set path" and "i < length path"
    by (auto simp: find_last_of_def split: if_splits) (cases path, auto)
  with t have "length dirPath < length path" by simp
  then show "((now, dirPath, fs), (now, path, fs)) \<in> measure (\<lambda>(now, path, fs). length path)"
    by simp
qed

declare ensureParentDirectoriesExist.simps [simp del]

text \<open>\<^verbatim>\<open>content.size()\<close> as a \<^verbatim>\<open>size_t\<close>.\<close>

definition size_of :: "string \<Rightarrow> 64 word" where
  "size_of content = of_nat (length content)"

definition updateFileContent :: "string \<Rightarrow> store \<Rightarrow> string \<Rightarrow> string \<Rightarrow> result \<times> store" where
  "updateFileContent now fs path content =
     (case map_of fs path of
        None \<Rightarrow> (Inl NotAFile, fs)
      | Some entry \<Rightarrow>
          if type entry \<noteq> FILE then (Inl NotAFile, fs)
          else (Inr (), AList.update path
                  (entry\<lparr>data := content, sizeInBytes := size_of content,
                         modificationDate := now\<rparr>) fs))"

definition writeContentToFile :: "string \<Rightarrow> fs_state \<Rightarrow> string \<Rightarrow> string \<Rightarrow> result \<times> fs_state" where
  "writeContentToFile now st path content =
     (let normalizedPath = normalizePath (currentDirectory st) path in
      case ensureParentDirectoriesExist now normalizedPath (memoryFileSystem st) of
        (False, fs) \<Rightarrow> (Inl ParentCreationFailed, st\<lparr>memoryFileSystem := fs\<rparr>)
      | (True, fs) \<Rightarrow>
          if fileExists fs normalizedPath then
            (case updateFileContent now fs normalizedPath content of
               (r, fs') \<Rightarrow> (r, st\<lparr>memoryFileSystem := fs'\<rparr>))
          else
            (Inr (), st\<lparr>memoryFileSystem :=
               AList.update normalizedPath
                 \<lparr>data = content, sizeInBytes = size_of content, creationDate = now,
                  modificationDate = now, type = FILE\<rparr> fs\<rparr>))"

definition addNewEntryInternal :: "string \<Rightarrow> fs_state \<Rightarrow> string \<Rightarrow> bool \<Rightarrow> result \<times> fs_state" where
  "addNewEntryInternal now st path isDirectory =
     (let normalizedPath = normalizePath (currentDirectory st) path in
      if map_of (memoryFileSystem st) normalizedPath \<noteq> None then (Inl AlreadyExists, st)
      else
        case ensureParentDirectoriesExist now normalizedPath (memoryFileSystem st) of
          (False, fs) \<Rightarrow> (Inl ParentCreationFailed, st\<lparr>memoryFileSystem := fs\<rparr>)
        | (True, fs) \<Rightarrow>
            (Inr (), st\<lparr>memoryFileSystem :=
               AList.update normalizedPath
                 (emptyEntry now (if isDirectory then DIRECTORY else FILE)) fs\<rparr>))"




definition parseCdCommand :: "fs_state \<Rightarrow> string \<Rightarrow> result \<times> fs_state" where
  "parseCdCommand st command =
     (let args = tokenize command CHR '' '' in
      if length args \<noteq> 2 then (Inl InvalidArgument, st)
      else
        let targetDir = normalizePath (currentDirectory st) (args ! 1) in
        if targetDir = ''/'' then (Inr (), st\<lparr>currentDirectory := ''/''\<rparr>)
        else if \<not> directoryExists (memoryFileSystem st) targetDir then (Inl NotADirectory, st)
        else (Inr (), st\<lparr>currentDirectory := targetDir\<rparr>))"

text \<open>The prefix under which the entries of a directory are stored.\<close>

definition dirPrefix :: "string \<Rightarrow> string" where
  "dirPrefix path = (if path = ''/'' then ''/'' else path @ ''/'')"

text \<open>
  \<^verbatim>\<open>entry.first.find(prefix) == 0\<close> is \<open>prefix\<close> of the library. The use of
  \<^verbatim>\<open>entryIterator\<close> after its \<^verbatim>\<open>erase\<close> only chooses the word printed and is left out.
\<close>

definition removeEntryInternal :: "fs_state \<Rightarrow> string \<Rightarrow> bool \<Rightarrow> result \<times> fs_state" where
  "removeEntryInternal st path recursive =
     (let fs = memoryFileSystem st;
          normalizedPath = normalizePath (currentDirectory st) path in
      case map_of fs normalizedPath of
        None \<Rightarrow> (Inl NotFound, st)
      | Some entry \<Rightarrow>
          if type entry = DIRECTORY then
            (let pre = dirPrefix normalizedPath;
                 hasContents = list_ex (\<lambda>(k, e). k \<noteq> normalizedPath \<and> prefix pre k) fs
             in if hasContents \<and> \<not> recursive then (Inl DirectoryNotEmpty, st)
                else
                  let fs1 =
                    (if recursive then
                       (let pathsToRemove =
                              map fst (filter (\<lambda>(k, e). k \<noteq> normalizedPath \<and> prefix pre k) fs)
                        in fold AList.delete pathsToRemove fs)
                     else fs)
                  in (Inr (), st\<lparr>memoryFileSystem := AList.delete normalizedPath fs1\<rparr>))
          else (Inr (), st\<lparr>memoryFileSystem := AList.delete normalizedPath fs\<rparr>))"




definition parseMoveCommand :: "string \<Rightarrow> fs_state \<Rightarrow> string \<Rightarrow> result \<times> fs_state" where
  "parseMoveCommand now st command =
     (let args = tokenize command CHR '' '' in
      if length args \<noteq> 3 then (Inl InvalidArgument, st)
      else
        let sourcePath = normalizePath (currentDirectory st) (args ! 1);
            destPath = normalizePath (currentDirectory st) (args ! 2);
            fs = memoryFileSystem st
        in case map_of fs sourcePath of
             None \<Rightarrow> (Inl NotFound, st)
           | Some sourceEntry \<Rightarrow>
               if map_of fs destPath \<noteq> None then (Inl AlreadyExists, st)
               else if type sourceEntry = DIRECTORY then
                 (case addNewEntryInternal now st destPath True of
                    (Inl e, st1) \<Rightarrow> (Inl e, st1)
                  | (Inr u, st1) \<Rightarrow>
                      let fs1 = memoryFileSystem st1;
                          sourcePrefix = dirPrefix sourcePath;
                          destPrefix = dirPrefix destPath;
                          entriesToMove =
                            map (\<lambda>(k, e). (destPrefix @ drop (length sourcePrefix) k, e))
                              (filter (\<lambda>(k, e). k \<noteq> sourcePath \<and> prefix sourcePrefix k) fs1);
                          fs2 = fold (\<lambda>(k, e). AList.update k e) entriesToMove fs1;
                          pathsToRemove = map fst (filter (\<lambda>(k, e). prefix sourcePrefix k) fs2);
                          fs3 = fold AList.delete pathsToRemove fs2
                      in (Inr (), st1\<lparr>memoryFileSystem := AList.delete sourcePath fs3\<rparr>))
               else
                 (Inr (), st\<lparr>memoryFileSystem :=
                    AList.delete sourcePath (AList.update destPath sourceEntry fs)\<rparr>))"





subsection \<open>Saving and loading\<close>

text \<open>
  The disk: the contents of the files that exist, and which file names the program can
  open for writing and for reading. Opening for reading needs the file to exist as well.
\<close>

record disk =
  contents :: "string \<Rightarrow> string option"
  writable :: "string \<Rightarrow> bool"
  readable :: "string \<Rightarrow> bool"

text \<open>\<^verbatim>\<open>outFile << n\<close> for a \<^verbatim>\<open>size_t\<close>: the decimal digits of \<open>n\<close>.\<close>

definition digit_char :: "nat \<Rightarrow> char" where
  "digit_char d = ''0123456789'' ! d"

function decimal :: "nat \<Rightarrow> string" where
  "decimal n = (if n < 10 then [digit_char n] else decimal (n div 10) @ [digit_char (n mod 10)])"
  by pat_completeness auto
termination
  by (relation "measure (\<lambda>n. n)") auto

declare decimal.simps [simp del]

definition isspace :: "char \<Rightarrow> bool" where
  "isspace c = (c \<in> set [CHR '' '', CHR 0x09, CHR 0x0A, CHR 0x0B, CHR 0x0C, CHR 0x0D])"

definition isdigit :: "char \<Rightarrow> bool" where
  "isdigit c = (c \<in> set ''0123456789'')"

definition digit_val :: "char \<Rightarrow> nat" where
  "digit_val c = of_char c - 48"

text \<open>
  \<^verbatim>\<open>std::stoull(str)\<close>, that is \<^verbatim>\<open>strtoull\<close> in base 10: white space, an optional sign, the
  longest run of digits; the rest of the string is ignored. No digit throws
  \<^verbatim>\<open>std::invalid_argument\<close>, a value above \<open>2^64 - 1\<close> throws \<^verbatim>\<open>std::out_of_range\<close>, and a
  minus sign negates the value as an unsigned number.
\<close>

definition stoull :: "string \<Rightarrow> error + 64 word" where
  "stoull str =
     (let s1 = dropWhile isspace str;
          negative = (s1 \<noteq> [] \<and> hd s1 = CHR ''-'');
          s2 = (if s1 \<noteq> [] \<and> (hd s1 = CHR ''-'' \<or> hd s1 = CHR ''+'') then tl s1 else s1);
          digits = takeWhile isdigit s2
      in if digits = [] then Inl StoullInvalidArgument
         else
           let v = foldl (\<lambda>a c. 10 * a + digit_val c) 0 digits in
           if v > 2 ^ 64 - 1 then Inl StoullOutOfRange
           else Inr (if negative then - of_nat v else of_nat v))"

text \<open>The line that \<^verbatim>\<open>parseSaveCommand\<close> writes for one entry, without its line feed.\<close>

definition dumpLine :: "string \<times> FSEntry \<Rightarrow> string" where
  "dumpLine entry =
     (let typeStr = (if type (snd entry) = FILE then ''FILE'' else ''DIR'') in
      typeStr @ ''|'' @ fst entry @ ''|'' @ decimal (unat (sizeInBytes (snd entry))) @ ''|''
        @ creationDate (snd entry) @ ''|'' @ modificationDate (snd entry) @ ''|''
        @ (if type (snd entry) = FILE then data (snd entry) else []))"

text \<open>Everything that \<^verbatim>\<open>parseSaveCommand\<close> writes to the file.\<close>

definition dumpText :: "string \<Rightarrow> store \<Rightarrow> string" where
  "dumpText now fs =
     ''# Memory File System Dump - '' @ now @ [CHR 0x0A]
     @ ''# Format: <type>|<path>|<size>|<created>|<modified>|<data>'' @ [CHR 0x0A]
     @ concat (map (\<lambda>entry. dumpLine entry @ [CHR 0x0A]) fs)"

definition parseSaveCommand :: "string \<Rightarrow> disk \<Rightarrow> fs_state \<Rightarrow> string \<Rightarrow> result \<times> disk" where
  "parseSaveCommand now dk st command =
     (let args = tokenize command CHR '' '' in
      if length args \<noteq> 2 then (Inl InvalidArgument, dk)
      else if \<not> writable dk (args ! 1) then (Inl CannotOpenFile, dk)
      else (Inr (), dk\<lparr>contents := (contents dk)((args ! 1) \<mapsto> dumpText now (memoryFileSystem st))\<rparr>))"

text \<open>
  The body of the loop of \<^verbatim>\<open>parseLoadCommand\<close> for one line. The result is \<open>Inl\<close> when
  \<^verbatim>\<open>std::stoull\<close> throws: nothing catches the exception and the program ends there.
\<close>

definition loadLine :: "store \<Rightarrow> string \<Rightarrow> error + store" where
  "loadLine fs line =
     (if line = [] \<or> front line = CHR ''#'' then Inr fs
      else
        case getline CHR ''|'' line of None \<Rightarrow> Inr fs | Some (typeStr, r1) \<Rightarrow>
        case getline CHR ''|'' r1 of None \<Rightarrow> Inr fs | Some (path, r2) \<Rightarrow>
        case getline CHR ''|'' r2 of None \<Rightarrow> Inr fs | Some (sizeStr, r3) \<Rightarrow>
        case getline CHR ''|'' r3 of None \<Rightarrow> Inr fs | Some (created, r4) \<Rightarrow>
        case getline CHR ''|'' r4 of None \<Rightarrow> Inr fs | Some (modified, r5) \<Rightarrow>
          let content = (case getline (CHR 0x0A) r5 of None \<Rightarrow> [] | Some (d, r6) \<Rightarrow> d) in
          case stoull sizeStr of
            Inl e \<Rightarrow> Inl e
          | Inr n \<Rightarrow>
              Inr (AList.update path
                     \<lparr>data = content, sizeInBytes = n, creationDate = created,
                      modificationDate = modified,
                      type = (if typeStr = ''FILE'' then FILE else DIRECTORY)\<rparr> fs))"

fun loadLines :: "store \<Rightarrow> string list \<Rightarrow> result \<times> store" where
  "loadLines fs [] = (Inr (), fs)"
| "loadLines fs (line # lines) =
     (case loadLine fs line of
        Inl e \<Rightarrow> (Inl e, fs)
      | Inr fs' \<Rightarrow> loadLines fs' lines)"

definition parseLoadCommand :: "disk \<Rightarrow> fs_state \<Rightarrow> string \<Rightarrow> result \<times> fs_state" where
  "parseLoadCommand dk st command =
     (let args = tokenize command CHR '' '' in
      if length args \<noteq> 2 then (Inl InvalidArgument, st)
      else
        case (if readable dk (args ! 1) then contents dk (args ! 1) else None) of
          None \<Rightarrow> (Inl CannotOpenFile, st)
        | Some text \<Rightarrow>
            (case loadLines [] (getlines (CHR 0x0A) text) of
               (r, fs) \<Rightarrow> (r, st\<lparr>memoryFileSystem := fs\<rparr>)))"

text \<open>A disk with no file, on which every name can be opened.\<close>

definition emptyDisk :: disk where
  "emptyDisk = \<lparr>contents = Map.empty, writable = (\<lambda>name. True), readable = (\<lambda>name. True)\<rparr>"

text \<open>
  The entries that the dump format can hold: the format has no escape for the field
  separator or for the line feed, and it writes no data for a directory.
\<close>

definition plain :: "string \<Rightarrow> bool" where
  "plain s = (CHR ''|'' \<notin> set s \<and> CHR 0x0A \<notin> set s)"

definition dumpable_entry :: "string \<times> FSEntry \<Rightarrow> bool" where
  "dumpable_entry entry =
     (plain (fst entry) \<and> plain (creationDate (snd entry)) \<and> plain (modificationDate (snd entry))
      \<and> CHR 0x0A \<notin> set (data (snd entry))
      \<and> (type (snd entry) = FILE \<or> data (snd entry) = []))"

subsection \<open>Commands\<close>

text \<open>
  The operations that change the globals, one constructor per function of the program
  that a command of the shell ends in, with that function's arguments. The batch commands
  \<^verbatim>\<open>create\<close>, \<^verbatim>\<open>write\<close> and \<^verbatim>\<open>delete\<close> call \<^verbatim>\<open>addNewFile\<close>, \<^verbatim>\<open>writeContentToFile\<close> and
  \<^verbatim>\<open>removeFile\<close> once per file, each call under the lock, in an order the threads choose.
\<close>

datatype command =
    Create string            \<comment> \<open>\<^verbatim>\<open>addNewFile(path)\<close>\<close>
  | Mkdir string             \<comment> \<open>\<^verbatim>\<open>parseMkdirCommand(command)\<close>\<close>
  | Write string string      \<comment> \<open>\<^verbatim>\<open>writeContentToFile(path, content)\<close>\<close>
  | Delete string            \<comment> \<open>\<^verbatim>\<open>removeFile(path)\<close>\<close>
  | Rmdir string             \<comment> \<open>\<^verbatim>\<open>parseRmdirCommand(command)\<close>\<close>
  | Move string              \<comment> \<open>\<^verbatim>\<open>parseMoveCommand(command)\<close>\<close>
  | Copy string "string list"  \<comment> \<open>\<^verbatim>\<open>parseCopyCommand(command)\<close>, and the keys its loop visits\<close>
  | Cd string                \<comment> \<open>\<^verbatim>\<open>parseCdCommand(command)\<close>\<close>
  | Save string              \<comment> \<open>\<^verbatim>\<open>parseSaveCommand(command)\<close>\<close>
  | Load string              \<comment> \<open>\<^verbatim>\<open>parseLoadCommand(command)\<close>\<close>



subsection \<open>Path normalization as the specification words it\<close>

text \<open>
  The second definition of normalization, written from the specification and not from the
  code: split on the separator keeping every segment, walk the segments with the list of
  retained ones, join what is retained.
\<close>

fun split_on :: "char \<Rightarrow> string \<Rightarrow> string list" where
  "split_on d [] = [[]]"
| "split_on d (c # cs) =
     (if c = d then [] # split_on d cs
      else (c # hd (split_on d cs)) # tl (split_on d cs))"

fun resolve_segments :: "string list \<Rightarrow> string list \<Rightarrow> string list" where
  "resolve_segments kept [] = kept"
| "resolve_segments kept (seg # segs) =
     (if seg = [] \<or> seg = ''.'' then resolve_segments kept segs
      else if seg = ''..'' then resolve_segments (if kept = [] then [] else butlast kept) segs
      else resolve_segments (kept @ [seg]) segs)"

definition spec_normalize :: "string \<Rightarrow> string \<Rightarrow> string" where
  "spec_normalize cwd path =
     (let full = (if path = [] \<or> hd path \<noteq> CHR ''/''
                  then (if cwd = ''/'' then cwd @ path else cwd @ ''/'' @ path)
                  else path);
          segs = resolve_segments [] (split_on CHR ''/'' full)
      in if segs = [] then ''/'' else concat (map (\<lambda>seg. ''/'' @ seg) segs))"

text \<open>
  A canonical path as the glossary of the specification has it: absolute, no empty segment
  (so no trailing slash but the root's) and no \<open>.\<close> or \<open>..\<close> segment.
\<close>

definition valid_segment :: "string \<Rightarrow> bool" where
  "valid_segment seg = (seg \<noteq> [] \<and> seg \<noteq> ''.'' \<and> seg \<noteq> ''..'')"

definition canonical :: "string \<Rightarrow> bool" where
  "canonical path =
     (path = ''/'' \<or>
      (case path of [] \<Rightarrow> False
       | c # rest \<Rightarrow> c = CHR ''/'' \<and> list_all valid_segment (split_on CHR ''/'' rest)))"

subsection \<open>The keys of the store\<close>

text \<open>Every key of the store is the empty string or a canonical path.\<close>

definition keys_canonical :: "store \<Rightarrow> bool" where
  "keys_canonical fs = list_all (\<lambda>k. k = [] \<or> canonical k) (map fst fs)"



text \<open>
  The ancestor paths of a path: what precedes each of its slashes. Those of \<open>/a/b/c\<close> are
  the empty string, \<open>/a\<close> and \<open>/a/b\<close>. The root \<open>/\<close> is among the ancestor paths of no
  canonical path: \<^verbatim>\<open>getDirectoryFromPath\<close> cuts before the slash, not after it.
\<close>

definition ancestors :: "string \<Rightarrow> string list" where
  "ancestors path =
     map (\<lambda>i. take i path) (filter (\<lambda>i. path ! i = CHR ''/'') [0..<length path])"

text \<open>Every key but the root has each of its ancestor paths stored as a directory.\<close>

definition parents_stored :: "store \<Rightarrow> bool" where
  "parents_stored fs =
     list_all (\<lambda>k. k = ''/'' \<or> list_all (directoryExists fs) (ancestors k)) (map fst fs)"

text \<open>
  One step of that chain: every key but the empty one and the root has the result of
  \<^verbatim>\<open>getDirectoryFromPath\<close> stored as a directory.
\<close>

definition parent_stored :: "store \<Rightarrow> bool" where
  "parent_stored fs =
     list_all (\<lambda>k. k = [] \<or> k = ''/'' \<or> directoryExists fs (getDirectoryFromPath k)) (map fst fs)"





section \<open>Properties\<close>

subsection \<open>Streams and normalization\<close>

lemma getlines_Nil [simp]: "getlines d [] = []"
  by (simp add: getlines.simps)

lemma getlines_Cons [simp]:
  "getlines d (c # cs) =
     takeWhile (\<lambda>x. x \<noteq> d) (c # cs) # getlines d (drop 1 (dropWhile (\<lambda>x. x \<noteq> d) (c # cs)))"
  by (subst getlines.simps) simp

lemma split_on_unfold:
  "split_on d s = takeWhile (\<lambda>x. x \<noteq> d) s #
     (case dropWhile (\<lambda>x. x \<noteq> d) s of [] \<Rightarrow> [] | c # r \<Rightarrow> split_on d r)"
  by (induction s) (auto split: list.splits)

lemma resolve_segments_push:
  "resolve_segments kept (seg # segs) = resolve_segments (push_component kept seg) segs"
  by (auto simp: push_component_def)

lemma foldl_push_getlines:
  "foldl push_component kept (getlines d s) = resolve_segments kept (split_on d s)"
proof (induction d s arbitrary: kept rule: getlines.induct)
  case (1 d s)
  show ?case
  proof (cases s)
    case Nil
    then show ?thesis by (simp add: push_component_def)
  next
    case (Cons c cs)
    let ?tok = "takeWhile (\<lambda>x. x \<noteq> d) s"
    let ?rest = "drop 1 (dropWhile (\<lambda>x. x \<noteq> d) s)"
    have g: "getline d s = Some (?tok, ?rest)" using Cons by simp
    have gl: "getlines d s = ?tok # getlines d ?rest"
      by (subst getlines.simps) (simp add: g)
    have ih: "foldl push_component k (getlines d ?rest) = resolve_segments k (split_on d ?rest)" for k
      using "1.IH" [OF g refl] by simp
    show ?thesis
    proof (cases "dropWhile (\<lambda>x. x \<noteq> d) s")
      case Nil
      have "getlines d ?rest = []" unfolding Nil by simp
      moreover have "split_on d s = [?tok]" by (subst split_on_unfold) (simp add: Nil)
      ultimately show ?thesis using gl by (simp add: push_component_def)
    next
      case (Cons x r)
      then have "split_on d s = ?tok # split_on d ?rest" by (subst split_on_unfold) simp
      then show ?thesis using gl ih by (simp only: resolve_segments_push foldl_Cons)
    qed
  qed
qed

lemma render_components:
  "''/'' @ concat (map (\<lambda>comp. comp @ ''/'') cs) = concat (map (\<lambda>seg. ''/'' @ seg) cs) @ ''/''"
  by (induction cs) auto

lemma normalizePath_spec: "normalizePath cwd path = spec_normalize cwd path"
proof -
  have f: "(path = [] \<or> front path \<noteq> CHR ''/'') = (path = [] \<or> hd path \<noteq> CHR ''/'')"
    by (cases path) (auto simp: front_def)
  have c: "path = [] \<or> front path \<noteq> CHR ''/'' \<Longrightarrow> front path \<noteq> CHR ''/''"
    by (cases path) (auto simp: front_def)
  have r: "(if length (''/'' @ concat (map (\<lambda>comp. comp @ ''/'') cs)) > 1
              \<and> last (''/'' @ concat (map (\<lambda>comp. comp @ ''/'') cs)) = CHR ''/''
            then butlast (''/'' @ concat (map (\<lambda>comp. comp @ ''/'') cs))
            else ''/'' @ concat (map (\<lambda>comp. comp @ ''/'') cs))
      = (if cs = [] then ''/'' else concat (map (\<lambda>seg. ''/'' @ seg) cs))" for cs :: "string list"
  proof (cases cs)
    case Nil
    then show ?thesis by simp
  next
    case (Cons a as)
    then have ne: "concat (map (\<lambda>seg. ''/'' @ seg) cs) \<noteq> []" by simp
    show ?thesis unfolding render_components using ne Cons by (simp add: butlast_append)
  qed
  show ?thesis
    unfolding normalizePath_def spec_normalize_def Let_def foldl_push_getlines r
    using c f by auto
qed

lemma normalizePath_root [simp]: "normalizePath cwd ''/'' = ''/''"
  by (simp add: normalizePath_def front_def push_component_def)

lemma split_on_nonempty [simp]: "split_on d s \<noteq> []"
  by (induction s) auto

lemma split_on_hd_tl: "hd (split_on d s) # tl (split_on d s) = split_on d s"
  by simp

lemma split_on_free: "seg \<in> set (split_on d s) \<Longrightarrow> d \<notin> set seg"
proof (induction s arbitrary: seg)
  case Nil
  then show ?case by simp
next
  case (Cons c cs)
  have h: "hd (split_on d cs) \<in> set (split_on d cs)" by simp
  have t: "x \<in> set (tl (split_on d cs)) \<Longrightarrow> x \<in> set (split_on d cs)" for x
    by (rule list.set_sel(2)) simp_all
  show ?case
  proof (cases "c = d")
    case True
    then show ?thesis using Cons by auto
  next
    case False
    then have "seg = c # hd (split_on d cs) \<or> seg \<in> set (tl (split_on d cs))"
      using Cons.prems by simp
    then show ?thesis using Cons.IH [OF h] Cons.IH [OF t] False by auto
  qed
qed

lemma split_on_single: "d \<notin> set a \<Longrightarrow> split_on d a = [a]"
  by (induction a) auto

lemma split_on_append: "d \<notin> set a \<Longrightarrow> split_on d (a @ d # b) = a # split_on d b"
  by (induction a) auto

lemma split_on_join:
  "d \<notin> set x \<Longrightarrow> \<forall>y \<in> set xs. d \<notin> set y \<Longrightarrow>
     split_on d (x @ concat (map ((#) d) xs)) = x # xs"
  by (induction xs arbitrary: x) (simp_all add: split_on_single split_on_append)

lemma join_split_on: "concat (map ((#) d) (split_on d r)) = d # r"
proof (induction r)
  case Nil
  then show ?case by simp
next
  case (Cons c cs)
  obtain x xs where s: "split_on d cs = x # xs"
    by (cases "split_on d cs") simp_all
  show ?case using Cons by (simp add: s)
qed

lemma slash_append: "((@) ''/'') = ((#) CHR ''/'')"
  by (rule ext) simp

lemma resolve_segments_valid:
  "list_all valid_segment kept \<Longrightarrow> list_all valid_segment (resolve_segments kept segs)"
proof (induction segs arbitrary: kept)
  case Nil
  then show ?case by simp
next
  case (Cons seg segs)
  have b: "list_all valid_segment (butlast kept)"
    using Cons.prems by (auto simp: list_all_iff dest: in_set_butlastD)
  have a: "valid_segment seg \<Longrightarrow> list_all valid_segment (kept @ [seg])"
    using Cons.prems by simp
  show ?case
    using Cons.IH [OF Cons.prems] Cons.IH [OF b] Cons.IH [OF a] Cons.IH [of "[]"]
    by (simp add: valid_segment_def)
qed

lemma resolve_segments_free:
  "\<forall>s \<in> set kept. d \<notin> set s \<Longrightarrow> \<forall>s \<in> set segs. d \<notin> set s \<Longrightarrow>
     \<forall>s \<in> set (resolve_segments kept segs). d \<notin> set s"
proof (induction segs arbitrary: kept)
  case Nil
  then show ?case by simp
next
  case (Cons seg segs)
  have b: "\<forall>s \<in> set (butlast kept). d \<notin> set s"
    using Cons.prems by (auto dest: in_set_butlastD)
  have a: "\<forall>s \<in> set (kept @ [seg]). d \<notin> set s"
    using Cons.prems by simp
  have r: "\<forall>s \<in> set segs. d \<notin> set s" using Cons.prems by simp
  show ?case
    using Cons.IH [OF Cons.prems(1) r] Cons.IH [OF b r] Cons.IH [OF a r] Cons.IH [of "[]", OF _ r]
    by simp
qed

lemma resolve_segments_id:
  "list_all valid_segment segs \<Longrightarrow> resolve_segments kept segs = kept @ segs"
  by (induction segs arbitrary: kept) (auto simp: valid_segment_def)

lemma canonical_spec_normalize: "canonical (spec_normalize cwd path)"
proof -
  define full where "full = (if path = [] \<or> hd path \<noteq> CHR ''/''
                  then (if cwd = ''/'' then cwd @ path else cwd @ ''/'' @ path) else path)"
  define segs where "segs = resolve_segments [] (split_on CHR ''/'' full)"
  have v: "list_all valid_segment segs"
    unfolding segs_def by (rule resolve_segments_valid) simp
  have fr: "\<forall>s \<in> set segs. CHR ''/'' \<notin> set s"
    unfolding segs_def by (rule resolve_segments_free) (auto dest: split_on_free)
  have sn: "spec_normalize cwd path = (if segs = [] then ''/'' else concat (map ((#) CHR ''/'') segs))"
    by (simp add: spec_normalize_def full_def segs_def Let_def slash_append)
  show ?thesis
  proof (cases segs)
    case Nil
    then show ?thesis by (simp add: sn canonical_def)
  next
    case (Cons x xs)
    have "concat (map ((#) CHR ''/'') segs) = CHR ''/'' # (x @ concat (map ((#) CHR ''/'') xs))"
      using Cons by simp
    moreover have "split_on CHR ''/'' (x @ concat (map ((#) CHR ''/'') xs)) = segs"
      using fr Cons by (simp add: split_on_join)
    ultimately show ?thesis using v Cons by (simp add: sn canonical_def)
  qed
qed

lemma canonical_normalizePath: "canonical (normalizePath cwd path)"
  by (simp add: normalizePath_spec canonical_spec_normalize)

lemma normalizePath_canonical: "canonical q \<Longrightarrow> normalizePath cwd q = q"
proof (cases "q = ''/''")
  case True
  then show ?thesis by simp
next
  case False
  assume "canonical q"
  with False obtain r where q: "q = CHR ''/'' # r" and v: "list_all valid_segment (split_on CHR ''/'' r)"
    by (auto simp: canonical_def split: list.splits)
  have "resolve_segments [] (split_on CHR ''/'' q) = split_on CHR ''/'' r"
    using v by (simp add: q resolve_segments_id)
  moreover have "concat (map ((#) CHR ''/'') (split_on CHR ''/'' r)) = q"
    using join_split_on [of "CHR ''/''" r] by (simp add: q)
  ultimately show ?thesis
    by (simp add: normalizePath_spec spec_normalize_def q slash_append)
qed

lemma normalizePath_idem: "normalizePath cwd' (normalizePath cwd path) = normalizePath cwd path"
  by (rule normalizePath_canonical) (rule canonical_normalizePath)

text \<open>
  Claim C3. For every path and every current directory, \<^verbatim>\<open>normalizePath\<close> computes what
  the specification describes: a path that does not start with \<open>/\<close> is appended to the
  current directory (with one separator, none after the root), empty and \<open>.\<close> segments are
  dropped, a \<open>..\<close> segment removes the last retained segment and does nothing when none is
  retained, and the retained segments are joined after a leading \<open>/\<close>. The result always
  starts with \<open>/\<close>, and the three examples of the specification evaluate as it says.
\<close>

theorem normalizePath_resolves_segments:
  "normalizePath cwd path = spec_normalize cwd path
   \<and> prefix ''/'' (normalizePath cwd path)
   \<and> normalizePath ''/x'' ''a/b/../c'' = ''/x/a/c''
   \<and> normalizePath ''/a/b'' ''../../etc'' = ''/etc''
   \<and> normalizePath ''/a'' ''../../../x'' = ''/x''"
proof -
  have "prefix ''/'' (spec_normalize cwd path)"
    by (cases "resolve_segments [] (split_on CHR ''/''
          (if path = [] \<or> hd path \<noteq> CHR ''/''
           then (if cwd = ''/'' then cwd @ path else cwd @ ''/'' @ path) else path))")
       (simp_all add: spec_normalize_def Let_def)
  then show ?thesis
    by (simp add: normalizePath_spec) (simp add: spec_normalize_def)
qed

subsection \<open>Parent directories\<close>

text \<open>
  Claim C7. The claim gives \<open>/\<close> as the directory part of a top-level path such as
  \<open>/a\<close>. \<^verbatim>\<open>getDirectoryFromPath\<close> returns \<open>/\<close> only for a path with no \<open>/\<close> at all; for
  \<open>/a\<close> the last \<open>/\<close> is at index 0 and the result is the empty string.
\<close>

theorem getDirectoryFromPath_top_level:
  "getDirectoryFromPath ''/a'' = [] \<and> getDirectoryFromPath ''/a'' \<noteq> ''/''"
  by (simp add: getDirectoryFromPath_def find_last_of_def)

subsection \<open>Writing\<close>

text \<open>
  Claim C4. The claim has a write to a path that is stored as a directory rejected with
  the store unchanged. \<^verbatim>\<open>writeContentToFile\<close> tests \<^verbatim>\<open>fileExists\<close> only; for a directory
  the test is false, the branch that creates a new file runs, and the directory entry is
  replaced by a file with the content written.
\<close>

theorem writeContentToFile_overwrites_directory:
  "writeContentToFile ''02/01/2024''
     \<lparr>memoryFileSystem =
        [(''/'', emptyEntry ''01/01/2024'' DIRECTORY), ([], emptyEntry ''01/01/2024'' DIRECTORY),
         (''/docs'', emptyEntry ''01/01/2024'' DIRECTORY)],
      currentDirectory = ''/''\<rparr> ''/docs'' ''hello''
   = (Inr (),
      \<lparr>memoryFileSystem =
        [(''/'', emptyEntry ''01/01/2024'' DIRECTORY), ([], emptyEntry ''01/01/2024'' DIRECTORY),
         (''/docs'', \<lparr>data = ''hello'', sizeInBytes = 5, creationDate = ''02/01/2024'',
                      modificationDate = ''02/01/2024'', type = FILE\<rparr>)],
      currentDirectory = ''/''\<rparr>)"
  by code_simp

subsection \<open>Removing\<close>

lemma map_of_fold_delete:
  "map_of (fold AList.delete ks fs) k = (if k \<in> set ks then None else map_of fs k)"
  by (induction ks arbitrary: fs) (auto simp: delete_conv')

lemma keys_fold_delete:
  "map fst (fold AList.delete ks fs) = filter (\<lambda>k. k \<notin> set ks) (map fst fs)"
proof (induction ks arbitrary: fs)
  case Nil
  then show ?case by simp
next
  case (Cons a ks)
  have "filter (\<lambda>k. k \<notin> set ks) (removeAll a (map fst fs))
      = filter (\<lambda>k. k \<notin> set (a # ks)) (map fst fs)"
    by (induction fs) auto
  with Cons show ?case by (simp add: delete_keys)
qed

lemma list_ex_keys:
  "list_ex (\<lambda>(k, e). P k) fs = (\<exists>k \<in> fst ` set fs. P k)"
  by (induction fs) auto

text \<open>
  Claim C6. When the normalized path is stored as a directory and some other key of the
  store starts with the prefix of that directory, removing it without the recursive flag
  fails with \<open>DirectoryNotEmpty\<close> and returns the state it was given.
\<close>

theorem remove_nonempty_directory_refused:
  assumes "map_of (memoryFileSystem st) (normalizePath (currentDirectory st) path) = Some entry"
    and "type entry = DIRECTORY"
    and "k \<in> fst ` set (memoryFileSystem st)"
    and "k \<noteq> normalizePath (currentDirectory st) path"
    and "prefix (dirPrefix (normalizePath (currentDirectory st) path)) k"
  shows "removeEntryInternal st path False = (Inl DirectoryNotEmpty, st)"
proof -
  let ?p = "normalizePath (currentDirectory st) path"
  have "list_ex (\<lambda>(k, e). k \<noteq> ?p \<and> prefix (dirPrefix ?p) k) (memoryFileSystem st)"
    unfolding list_ex_keys using assms(3-5) by blast
  then show ?thesis
    using assms(1,2) by (simp add: removeEntryInternal_def Let_def)
qed

theorem remove_nonempty_directory_refused_witness:
  "removeEntryInternal
     \<lparr>memoryFileSystem =
        [(''/'', emptyEntry ''d'' DIRECTORY), ([], emptyEntry ''d'' DIRECTORY),
         (''/docs'', emptyEntry ''d'' DIRECTORY), (''/docs/readme.txt'', emptyEntry ''d'' FILE)],
      currentDirectory = ''/''\<rparr> ''docs'' False
   = (Inl DirectoryNotEmpty,
      \<lparr>memoryFileSystem =
        [(''/'', emptyEntry ''d'' DIRECTORY), ([], emptyEntry ''d'' DIRECTORY),
         (''/docs'', emptyEntry ''d'' DIRECTORY), (''/docs/readme.txt'', emptyEntry ''d'' FILE)],
      currentDirectory = ''/''\<rparr>)"
proof -
  have n: "normalizePath ''/'' ''docs'' = ''/docs''" by code_simp
  show ?thesis
    by (rule remove_nonempty_directory_refused
          [where entry = "emptyEntry ''d'' DIRECTORY" and k = "''/docs/readme.txt''"])
       (simp_all add: n emptyEntry_def dirPrefix_def)
qed

text \<open>
  Claim C9, as stated, fails: on a store with no root entry the removal of \<open>/\<close> fails with
  \<open>NotFound\<close>, and an entry whose key does not start with \<open>/\<close> (the empty key that
  \<^verbatim>\<open>ensureParentDirectoriesExist\<close> stores) is left in the store.
\<close>

theorem remove_root_counterexample:
  "removeEntryInternal \<lparr>memoryFileSystem = [], currentDirectory = ''/''\<rparr> ''/'' True
     = (Inl NotFound, \<lparr>memoryFileSystem = [], currentDirectory = ''/''\<rparr>)
   \<and> removeEntryInternal
       \<lparr>memoryFileSystem = [(''/'', emptyEntry ''d'' DIRECTORY), ([], emptyEntry ''d'' DIRECTORY),
          (''/a'', emptyEntry ''d'' FILE)], currentDirectory = ''/''\<rparr> ''/'' True
     = (Inr (), \<lparr>memoryFileSystem = [([], emptyEntry ''d'' DIRECTORY)], currentDirectory = ''/''\<rparr>)"
  by code_simp

text \<open>
  Claim C9, amended. When \<open>/\<close> is stored as a directory, removing it recursively
  succeeds, whatever the current directory: every key that starts with \<open>/\<close>, the root
  included, is erased and every other entry is kept, so the store is left empty exactly
  when all its keys started with \<open>/\<close>. The root is not treated specially.
\<close>

theorem remove_root_recursive:
  assumes "map_of (memoryFileSystem st) ''/'' = Some entry" and "type entry = DIRECTORY"
  shows "\<exists>fs'. removeEntryInternal st ''/'' True = (Inr (), st\<lparr>memoryFileSystem := fs'\<rparr>)
           \<and> (\<forall>k. map_of fs' k = (if prefix ''/'' k then None else map_of (memoryFileSystem st) k))
           \<and> (if list_all (prefix ''/'') (map fst (memoryFileSystem st)) then fs' = [] else fs' \<noteq> [])"
proof -
  let ?fs = "memoryFileSystem st"
  let ?ks = "map fst (filter (\<lambda>(k, e). k \<noteq> ''/'' \<and> prefix ''/'' k) ?fs)"
  let ?fs' = "AList.delete ''/'' (fold AList.delete ?ks ?fs)"
  have r: "removeEntryInternal st ''/'' True = (Inr (), st\<lparr>memoryFileSystem := ?fs'\<rparr>)"
    using assms by (simp add: removeEntryInternal_def Let_def dirPrefix_def)
  have ks: "k \<in> set ?ks \<longleftrightarrow> k \<in> fst ` set ?fs \<and> k \<noteq> ''/'' \<and> prefix ''/'' k" for k
    by force
  have m: "map_of ?fs' k = (if prefix ''/'' k then None else map_of ?fs k)" for k
  proof (cases "k \<in> fst ` set ?fs")
    case True
    then show ?thesis by (auto simp: delete_conv' map_of_fold_delete ks)
  next
    case False
    then have "map_of ?fs k = None" by (simp add: map_of_eq_None_iff)
    then show ?thesis by (simp add: delete_conv' map_of_fold_delete)
  qed
  have keys: "map fst ?fs' = filter (\<lambda>k. \<not> prefix ''/'' k) (map fst ?fs)"
    unfolding delete_keys keys_fold_delete removeAll_filter_not_eq filter_filter
    by (rule filter_cong) (auto simp: ks)
  have e: "(?fs' = []) = list_all (prefix ''/'') (map fst ?fs)"
  proof -
    have "(?fs' = []) = (map fst ?fs' = [])" by simp
    also have "\<dots> = list_all (prefix ''/'') (map fst ?fs)"
      unfolding keys by (simp add: filter_empty_conv list_all_iff)
    finally show ?thesis .
  qed
  show ?thesis using r m e by (intro exI [of _ ?fs']) simp
qed

theorem remove_root_recursive_witness:
  "\<exists>fs'. removeEntryInternal
       \<lparr>memoryFileSystem = [(''/'', emptyEntry ''d'' DIRECTORY), (''/a'', emptyEntry ''d'' DIRECTORY),
          (''/a/f'', emptyEntry ''d'' FILE)], currentDirectory = ''/a''\<rparr> ''/'' True
       = (Inr (), \<lparr>memoryFileSystem = fs', currentDirectory = ''/a''\<rparr>)
     \<and> map_of fs' ''/a/f'' = None \<and> fs' = []"
  using remove_root_recursive [of "\<lparr>memoryFileSystem = [(''/'', emptyEntry ''d'' DIRECTORY),
      (''/a'', emptyEntry ''d'' DIRECTORY), (''/a/f'', emptyEntry ''d'' FILE)],
      currentDirectory = ''/a''\<rparr>" "emptyEntry ''d'' DIRECTORY"]
  by (simp add: emptyEntry_def)

subsection \<open>The current directory\<close>

text \<open>
  Claim C10. For a \<^verbatim>\<open>cd\<close> command with one argument: when the argument normalizes to
  \<open>/\<close> the command succeeds and sets the current directory to \<open>/\<close> whatever the store
  holds; otherwise it succeeds, setting the current directory to the normalized path,
  exactly when that path is stored as a directory, and fails leaving the state as it was
  when it is not.
\<close>

theorem cd_root_or_existing_directory:
  assumes "tokenize command CHR '' '' = [c, path]"
  shows "(normalizePath (currentDirectory st) path = ''/'' \<longrightarrow>
            parseCdCommand st command = (Inr (), st\<lparr>currentDirectory := ''/''\<rparr>))
       \<and> (normalizePath (currentDirectory st) path \<noteq> ''/'' \<longrightarrow>
            (if directoryExists (memoryFileSystem st) (normalizePath (currentDirectory st) path)
             then parseCdCommand st command
                    = (Inr (), st\<lparr>currentDirectory := normalizePath (currentDirectory st) path\<rparr>)
             else parseCdCommand st command = (Inl NotADirectory, st)))"
  using assms by (simp add: parseCdCommand_def Let_def)

theorem cd_root_or_existing_directory_witness:
  "parseCdCommand \<lparr>memoryFileSystem = [], currentDirectory = ''/a''\<rparr> ''cd ..''
     = (Inr (), \<lparr>memoryFileSystem = [], currentDirectory = ''/''\<rparr>)
   \<and> parseCdCommand
       \<lparr>memoryFileSystem = [(''/a'', emptyEntry ''d'' DIRECTORY)], currentDirectory = ''/''\<rparr> ''cd a''
     = (Inr (), \<lparr>memoryFileSystem = [(''/a'', emptyEntry ''d'' DIRECTORY)], currentDirectory = ''/a''\<rparr>)
   \<and> parseCdCommand
       \<lparr>memoryFileSystem = [(''/a'', emptyEntry ''d'' FILE)], currentDirectory = ''/''\<rparr> ''cd a''
     = (Inl NotADirectory,
        \<lparr>memoryFileSystem = [(''/a'', emptyEntry ''d'' FILE)], currentDirectory = ''/''\<rparr>)"
proof -
  have t1: "tokenize ''cd ..'' CHR '' '' = [''cd'', ''..'']" by code_simp
  have t2: "tokenize ''cd a'' CHR '' '' = [''cd'', ''a'']" by code_simp
  have n1: "normalizePath ''/a'' ''..'' = ''/''" by code_simp
  have n2: "normalizePath ''/'' ''a'' = ''/a''" by code_simp
  show ?thesis
    using cd_root_or_existing_directory [OF t1, of "\<lparr>memoryFileSystem = [], currentDirectory = ''/a''\<rparr>"]
      cd_root_or_existing_directory [OF t2,
        of "\<lparr>memoryFileSystem = [(''/a'', emptyEntry ''d'' DIRECTORY)], currentDirectory = ''/''\<rparr>"]
      cd_root_or_existing_directory [OF t2,
        of "\<lparr>memoryFileSystem = [(''/a'', emptyEntry ''d'' FILE)], currentDirectory = ''/''\<rparr>"]
    by (simp add: n1 n2 directoryExists_def emptyEntry_def)
qed












subsection \<open>Creating the parent directories\<close>

lemma find_last_of_split:
  assumes "find_last_of p d = Some i"
  shows "p = take i p @ d # drop (Suc i) p \<and> d \<notin> set (drop (Suc i) p) \<and> i < length p"
proof -
  let ?t = "takeWhile (\<lambda>x. x \<noteq> d) (rev p)"
  let ?r = "dropWhile (\<lambda>x. x \<noteq> d) (rev p)"
  from assms have m: "d \<in> set p" and i: "i = length p - Suc (length ?t)"
    by (auto simp: find_last_of_def split: if_splits)
  from m have "?r \<noteq> []" by (simp add: dropWhile_eq_Nil_conv)
  then obtain r' where r: "?r = d # r'"
    using hd_dropWhile [of "\<lambda>x. x \<noteq> d" "rev p"] by (cases ?r) auto
  have "rev p = ?t @ d # r'" using takeWhile_dropWhile_id [of "\<lambda>x. x \<noteq> d" "rev p"] r by simp
  then have p: "p = rev r' @ d # rev ?t" by (simp add: rev_swap)
  have l: "length p = length r' + Suc (length ?t)" by (subst p) simp
  then have ir: "i = length r'" using i by simp
  have "take i p = rev r'" by (subst p) (simp add: ir)
  moreover have "drop (Suc i) p = rev ?t" by (subst p) (simp add: ir)
  moreover have "d \<notin> set (rev ?t)" by (auto dest: set_takeWhileD)
  ultimately show ?thesis using p l ir by simp
qed

lemma ensureParentDirectoriesExist_present:
  "getDirectoryFromPath path = ''/'' \<or> directoryExists fs (getDirectoryFromPath path) \<Longrightarrow>
     ensureParentDirectoriesExist now path fs = (True, fs)"
  by (subst ensureParentDirectoriesExist.simps) (auto simp: Let_def)

lemma ensureParentDirectoriesExist_True: "fst (ensureParentDirectoriesExist now path fs) = True"
proof (induction now path fs rule: ensureParentDirectoriesExist.induct)
  case (1 now path fs)
  show ?case
    using "1.IH" by (subst ensureParentDirectoriesExist.simps) (auto simp: Let_def split: prod.splits)
qed

lemma ancestors_iff:
  "k \<in> set (ancestors path) \<longleftrightarrow> (\<exists>rest. path = k @ CHR ''/'' # rest)"
proof
  assume "k \<in> set (ancestors path)"
  then obtain i where i: "i < length path" "path ! i = CHR ''/''" and k: "k = take i path"
    by (auto simp: ancestors_def)
  have "path = take i path @ path ! i # drop (Suc i) path"
    using i(1) by (simp add: id_take_nth_drop)
  then show "\<exists>rest. path = k @ CHR ''/'' # rest" using i(2) k by metis
next
  assume "\<exists>rest. path = k @ CHR ''/'' # rest"
  then obtain rest where p: "path = k @ CHR ''/'' # rest" by blast
  have "length k < length path" "path ! length k = CHR ''/''" "take (length k) path = k"
    by (simp_all add: p)
  then show "k \<in> set (ancestors path)"
    unfolding ancestors_def by (auto simp: image_iff intro!: bexI [of _ "length k"])
qed

lemma getDirectoryFromPath_ancestor:
  "getDirectoryFromPath path \<noteq> ''/'' \<Longrightarrow> getDirectoryFromPath path \<in> set (ancestors path)"
proof -
  assume n: "getDirectoryFromPath path \<noteq> ''/''"
  then obtain i where f: "find_last_of path CHR ''/'' = Some i"
    by (auto simp: getDirectoryFromPath_def split: option.splits)
  from find_last_of_split [OF f] show ?thesis
    using f by (auto simp: ancestors_iff getDirectoryFromPath_def)
qed

lemma ancestors_trans:
  "a \<in> set (ancestors b) \<Longrightarrow> b \<in> set (ancestors c) \<Longrightarrow> a \<in> set (ancestors c)"
  by (auto simp: ancestors_iff)


lemma ensureParentDirectoriesExist_distinct:
  "distinct (map fst fs) \<Longrightarrow>
     distinct (map fst (snd (ensureParentDirectoriesExist now path fs)))"
proof (induction now path fs rule: ensureParentDirectoriesExist.induct)
  case (1 now path fs)
  let ?d = "getDirectoryFromPath path"
  show ?case
  proof (cases "?d = ''/'' \<or> directoryExists fs ?d")
    case True
    then show ?thesis using "1.prems" by (simp add: ensureParentDirectoriesExist_present)
  next
    case False
    then have n: "?d \<noteq> ''/''" "\<not> directoryExists fs ?d" by auto
    obtain b fs' where e: "ensureParentDirectoriesExist now ?d fs = (b, fs')"
      by (cases "ensureParentDirectoriesExist now ?d fs")
    have b: "b = True" using ensureParentDirectoriesExist_True [of now ?d fs] e by simp
    have m: "distinct (map fst fs')" using "1.IH" [OF refl n "1.prems"] e by simp
    have "ensureParentDirectoriesExist now path fs
            = (True, AList.update ?d (emptyEntry now DIRECTORY) fs')"
      using n e b by (subst ensureParentDirectoriesExist.simps) (simp add: Let_def)
    then show ?thesis using m by (simp add: distinct_update)
  qed
qed

lemma length_update_ge: "length al \<le> length (AList.update k v al)"
  by (induction al) auto

lemma ensureParentDirectoriesExist_length:
  "length fs \<le> length (snd (ensureParentDirectoriesExist now path fs))"
proof (induction now path fs rule: ensureParentDirectoriesExist.induct)
  case (1 now path fs)
  let ?d = "getDirectoryFromPath path"
  show ?case
  proof (cases "?d = ''/'' \<or> directoryExists fs ?d")
    case True
    then show ?thesis by (simp add: ensureParentDirectoriesExist_present)
  next
    case False
    then have n: "?d \<noteq> ''/''" "\<not> directoryExists fs ?d" by auto
    obtain b fs' where e: "ensureParentDirectoriesExist now ?d fs = (b, fs')"
      by (cases "ensureParentDirectoriesExist now ?d fs")
    have b: "b = True" using ensureParentDirectoriesExist_True [of now ?d fs] e by simp
    have m: "length fs \<le> length fs'" using "1.IH" [OF refl n] e by simp
    have "ensureParentDirectoriesExist now path fs
            = (True, AList.update ?d (emptyEntry now DIRECTORY) fs')"
      using n e b by (subst ensureParentDirectoriesExist.simps) (simp add: Let_def)
    then show ?thesis using m length_update_ge [of fs' ?d "emptyEntry now DIRECTORY"] by simp
  qed
qed

lemma ensureParentDirectoriesExist_cases:
  "map_of (snd (ensureParentDirectoriesExist now path fs)) k = map_of fs k
   \<or> (k \<in> set (ancestors path)
      \<and> map_of (snd (ensureParentDirectoriesExist now path fs)) k = Some (emptyEntry now DIRECTORY))"
proof (induction now path fs rule: ensureParentDirectoriesExist.induct)
  case (1 now path fs)
  let ?d = "getDirectoryFromPath path"
  show ?case
  proof (cases "?d = ''/'' \<or> directoryExists fs ?d")
    case True
    then show ?thesis by (simp add: ensureParentDirectoriesExist_present)
  next
    case False
    then have n: "?d \<noteq> ''/''" "\<not> directoryExists fs ?d" by auto
    have da: "?d \<in> set (ancestors path)" by (rule getDirectoryFromPath_ancestor [OF n(1)])
    obtain b fs' where e: "ensureParentDirectoriesExist now ?d fs = (b, fs')"
      by (cases "ensureParentDirectoriesExist now ?d fs")
    have b: "b = True" using ensureParentDirectoriesExist_True [of now ?d fs] e by simp
    have m: "map_of fs' k = map_of fs k
             \<or> (k \<in> set (ancestors ?d) \<and> map_of fs' k = Some (emptyEntry now DIRECTORY))"
      using "1.IH" [OF refl n] e by simp
    have r: "ensureParentDirectoriesExist now path fs
            = (True, AList.update ?d (emptyEntry now DIRECTORY) fs')"
      using n e b by (subst ensureParentDirectoriesExist.simps) (simp add: Let_def)
    show ?thesis
    proof (cases "k = ?d")
      case True
      then show ?thesis using da by (simp add: r update_conv')
    next
      case False
      then show ?thesis using m ancestors_trans [OF _ da] by (auto simp: r update_conv')
    qed
  qed
qed




subsection \<open>Moving\<close>

lemma normalizePath_slash: "prefix ''/'' (normalizePath cwd path)"
  using canonical_normalizePath [of cwd path]
  by (auto simp: canonical_def split: list.splits)

lemma update_absent: "k \<notin> fst ` set al \<Longrightarrow> AList.update k v al = al @ [(k, v)]"
  by (induction al) auto

lemma map_of_filter_keys:
  "map_of (filter (\<lambda>(k, e). P k) ys) k = (if P k then map_of ys k else None)"
  by (induction ys) auto

lemma map_of_remap:
  "\<forall>k \<in> fst ` set ys. prefix sp k \<Longrightarrow>
     map_of (map (\<lambda>(k, e). (dp @ drop (length sp) k, e)) ys) k
       = (if prefix dp k then map_of ys (sp @ drop (length dp) k) else None)"
proof (induction ys)
  case Nil
  then show ?case by simp
next
  case (Cons y ys)
  obtain k0 e0 where y: "y = (k0, e0)" by (cases y)
  from Cons.prems y obtain r0 where k0: "k0 = sp @ r0" by (auto elim: prefixE)
  have e: "(dp @ drop (length sp) k0 = k) = (prefix dp k \<and> sp @ drop (length dp) k = k0)"
    by (auto simp: k0 elim!: prefixE)
  show ?case using Cons e by (auto simp: y)
qed

lemma map_of_fold_update:
  "map_of (fold (\<lambda>(k, e). AList.update k e) xs fs) = map_of fs ++ map_of (rev xs)"
proof (induction xs arbitrary: fs)
  case Nil
  then show ?case by simp
next
  case (Cons x xs)
  obtain k v where x: "x = (k, v)" by (cases x)
  show ?case by (rule ext) (simp add: x Cons update_conv' map_add_def split: option.splits)
qed

lemma distinct_fold_update:
  "distinct (map fst fs) \<Longrightarrow> distinct (map fst (fold (\<lambda>(k, e). AList.update k e) xs fs))"
  by (induction xs arbitrary: fs) (auto simp: distinct_update)

lemma distinct_fold_delete:
  "distinct (map fst fs) \<Longrightarrow> distinct (map fst (fold AList.delete ks fs))"
  by (induction ks arbitrary: fs) (auto simp: distinct_delete)

lemma map_of_rev_distinct: "distinct (map fst xs) \<Longrightarrow> map_of (rev xs) = map_of xs"
proof (induction xs)
  case Nil
  then show ?case by simp
next
  case (Cons x xs)
  obtain k v where x: "x = (k, v)" by (cases x)
  from Cons.prems have "map_of xs k = None" by (simp add: x map_of_eq_None_iff)
  then show ?case using Cons
    by (intro ext) (simp add: x map_add_def split: option.splits)
qed

lemma length_distinct_store:
  "distinct (map fst fs) \<Longrightarrow> length fs = card (dom (map_of fs))"
  using distinct_card [of "map fst fs"] by (simp add: dom_map_of_conv_image_fst)

text \<open>The map that the directory branch of the move leaves, whatever the prefixes.\<close>

lemma move_directory_map:
  fixes fs1 :: store and src sp dp :: string
  assumes etm_def: "etm = map (\<lambda>(k, e). (dp @ drop (length sp) k, e))
                    (filter (\<lambda>(k, e). k \<noteq> src \<and> prefix sp k) fs1)"
    and fs2_def: "fs2 = fold (\<lambda>(k, e). AList.update k e) etm fs1"
    and fs3_def: "fs3 = fold AList.delete (map fst (filter (\<lambda>(k, e). prefix sp k) fs2)) fs2"
    and dist: "distinct (map fst fs1)"
  shows "map_of (AList.delete src fs3) k =
           (if k = src \<or> prefix sp k then None
            else if prefix dp k \<and> sp @ drop (length dp) k \<noteq> src
                    \<and> map_of fs1 (sp @ drop (length dp) k) \<noteq> None
                 then map_of fs1 (sp @ drop (length dp) k)
            else map_of fs1 k)"
proof -
  let ?desc = "filter (\<lambda>(k, e). k \<noteq> src \<and> prefix sp k) fs1"
  have pk: "\<forall>k \<in> fst ` set ?desc. prefix sp k" by auto
  have m_etm: "map_of etm k = (if prefix dp k \<and> sp @ drop (length dp) k \<noteq> src
                    then map_of fs1 (sp @ drop (length dp) k) else None)" for k
    unfolding etm_def map_of_remap [OF pk] map_of_filter_keys by simp
  have d_desc: "distinct (map fst ?desc)"
    using dist by (simp add: distinct_map_filter)
  have inj: "inj_on (\<lambda>k. dp @ drop (length sp) k) (fst ` set ?desc)"
  proof (rule inj_onI)
    fix x y assume "x \<in> fst ` set ?desc" "y \<in> fst ` set ?desc"
      and e: "dp @ drop (length sp) x = dp @ drop (length sp) y"
    then have "prefix sp x" "prefix sp y" using pk by blast+
    then obtain rx ry where "x = sp @ rx" "y = sp @ ry" unfolding prefix_def by blast
    with e show "x = y" by simp
  qed
  have "distinct (map (\<lambda>k. dp @ drop (length sp) k) (map fst ?desc))"
  proof (subst distinct_map, rule conjI)
    show "distinct (map fst ?desc)" by (rule d_desc)
    show "inj_on (\<lambda>k. dp @ drop (length sp) k) (set (map fst ?desc))"
      using inj by (simp only: set_map)
  qed
  moreover have "map fst etm = map (\<lambda>k. dp @ drop (length sp) k) (map fst ?desc)"
    unfolding etm_def by (simp add: case_prod_beta comp_def)
  ultimately have d_etm: "distinct (map fst etm)" by (simp only:)
  have m2: "map_of fs2 k = (case map_of etm k of Some v \<Rightarrow> Some v | None \<Rightarrow> map_of fs1 k)" for k
    unfolding fs2_def map_of_fold_update
    using d_etm by (simp add: map_add_def map_of_rev_distinct)
  have m3: "map_of fs3 k = (if prefix sp k then None else map_of fs2 k)" for k
  proof (cases "k \<in> fst ` set fs2")
    case True
    then obtain v where "(k, v) \<in> set fs2" by auto
    then have "(k \<in> set (map fst (filter (\<lambda>(k, e). prefix sp k) fs2))) = prefix sp k"
      by (auto simp: image_iff intro: bexI [of _ "(k, v)"])
    then show ?thesis unfolding fs3_def map_of_fold_delete by simp
  next
    case False
    then have "map_of fs2 k = None" by (simp add: map_of_eq_None_iff)
    then show ?thesis unfolding fs3_def map_of_fold_delete by simp
  qed
  show ?thesis
    unfolding delete_conv' fun_upd_apply m3 m2 m_etm
    by (cases "map_of fs1 (sp @ drop (length dp) k)") simp_all
qed

lemma length_filter_keys:
  "distinct (map fst fs) \<Longrightarrow>
     length (filter (\<lambda>(k, e). P k) fs) = card {k \<in> dom (map_of fs). P k}"
proof -
  assume d: "distinct (map fst fs)"
  have "distinct (map fst (filter (\<lambda>(k, e). P k) fs))"
    using d by (simp add: distinct_map_filter)
  then have "length (filter (\<lambda>(k, e). P k) fs) = card (dom (map_of (filter (\<lambda>(k, e). P k) fs)))"
    by (rule length_distinct_store)
  also have "dom (map_of (filter (\<lambda>(k, e). P k) fs)) = {k \<in> dom (map_of fs). P k}"
    by (auto simp: map_of_filter_keys dom_def)
  finally show ?thesis .
qed

text \<open>
  Claim C2, as stated, fails. Moving the directory \<open>/a\<close> to \<open>/b\<close> in a store of three
  entries leaves four: \<^verbatim>\<open>addNewEntryInternal\<close> runs \<^verbatim>\<open>ensureParentDirectoriesExist\<close> for the
  target, and for a top-level target that stores a directory under the empty key. With that
  key stored already, moving \<open>/a\<close> to \<open>/x/y\<close> stores the missing \<open>/x\<close>: five entries out
  of four. Moving \<open>/a\<close> to \<open>/a/b\<close>, a target inside the source, erases the remapped
  entries with the source.
\<close>

theorem move_directory_counterexample:
  "map_of [(''/'', emptyEntry ''d'' DIRECTORY), ([], emptyEntry ''d'' DIRECTORY),
           (''/a'', emptyEntry ''d'' DIRECTORY), (''/a/f'', emptyEntry ''d'' FILE)] ''/a''
     = Some (emptyEntry ''d'' DIRECTORY)
   \<and> map fst (memoryFileSystem (snd (parseMoveCommand ''n''
        \<lparr>memoryFileSystem = [(''/'', emptyEntry ''d'' DIRECTORY), ([], emptyEntry ''d'' DIRECTORY),
           (''/a'', emptyEntry ''d'' DIRECTORY), (''/a/f'', emptyEntry ''d'' FILE)],
         currentDirectory = ''/''\<rparr> ''mv /a /x/y'')))
     = [''/'', [], ''/x'', ''/x/y'', ''/x/y/f'']
   \<and> map fst (memoryFileSystem (snd (parseMoveCommand ''n''
        \<lparr>memoryFileSystem = [(''/'', emptyEntry ''d'' DIRECTORY), ([], emptyEntry ''d'' DIRECTORY),
           (''/a'', emptyEntry ''d'' DIRECTORY), (''/a/f'', emptyEntry ''d'' FILE)],
         currentDirectory = ''/''\<rparr> ''mv /a /a/b'')))
     = [''/'', []]
   \<and> map fst (memoryFileSystem (snd (parseMoveCommand ''n''
        \<lparr>memoryFileSystem = [(''/'', emptyEntry ''d'' DIRECTORY),
           (''/a'', emptyEntry ''d'' DIRECTORY), (''/a/f'', emptyEntry ''d'' FILE)],
         currentDirectory = ''/''\<rparr> ''mv /a /b'')))
     = [''/'', [], ''/b'', ''/b/f'']"
  by code_simp

text \<open>
  Claim C2, amended. Let \<open>src\<close> be stored as a directory and \<open>dst\<close> not be stored, with
  \<open>dst\<close> not inside \<open>src\<close> and no key of the store under \<open>dst\<close>. Then the move succeeds
  and afterwards \<open>dst\<close> is a new directory entry, every key under \<open>dst\<close> holds the entry
  that the store held at the corresponding key under \<open>src\<close> (the value unchanged) and
  there are as many of them as there were descendants of \<open>src\<close>, and no entry is left at
  \<open>src\<close> or under it. Every other entry is what \<^verbatim>\<open>ensureParentDirectoriesExist\<close>, run for
  \<open>dst\<close>, leaves: the entry as it was, or at an ancestor path of \<open>dst\<close> a new directory
  entry. The entries are as many as after that step, so never fewer than before, and as
  many as before when the path that \<^verbatim>\<open>getDirectoryFromPath\<close> gives for \<open>dst\<close> (the empty
  string when \<open>dst\<close> is a top-level path) is stored as a directory.
\<close>

theorem move_directory_remaps_subtree:
  assumes tok: "tokenize command CHR '' '' = [c, a, b]"
    and src: "src = normalizePath (currentDirectory st) a"
    and dst: "dst = normalizePath (currentDirectory st) b"
    and dist: "distinct (map fst (memoryFileSystem st))"
    and se: "map_of (memoryFileSystem st) src = Some e"
    and dir: "type e = DIRECTORY"
    and de: "map_of (memoryFileSystem st) dst = None"
    and nin: "\<not> prefix (dirPrefix src) dst"
    and und: "\<forall>k \<in> fst ` set (memoryFileSystem st). \<not> prefix (dirPrefix dst) k"
  shows "\<exists>fs'. parseMoveCommand now st command = (Inr (), st\<lparr>memoryFileSystem := fs'\<rparr>)
     \<and> (\<forall>k. map_of fs' k =
            (if k = dst then Some (emptyEntry now DIRECTORY)
             else if prefix (dirPrefix dst) k
               then map_of (memoryFileSystem st) (dirPrefix src @ drop (length (dirPrefix dst)) k)
             else if k = src \<or> prefix (dirPrefix src) k then None
             else map_of (snd (ensureParentDirectoriesExist now dst (memoryFileSystem st))) k))
     \<and> (\<forall>k. map_of (snd (ensureParentDirectoriesExist now dst (memoryFileSystem st))) k
                = map_of (memoryFileSystem st) k
            \<or> (k \<in> set (ancestors dst)
               \<and> map_of (snd (ensureParentDirectoriesExist now dst (memoryFileSystem st))) k
                   = Some (emptyEntry now DIRECTORY)))
     \<and> length (filter (\<lambda>(k, e). prefix (dirPrefix dst) k) fs')
         = length (filter (\<lambda>(k, e). prefix (dirPrefix src) k) (memoryFileSystem st))
     \<and> distinct (map fst fs')
     \<and> length fs' = length (snd (ensureParentDirectoriesExist now dst (memoryFileSystem st)))
     \<and> length (memoryFileSystem st) \<le> length fs'
     \<and> (directoryExists (memoryFileSystem st) (getDirectoryFromPath dst)
          \<longrightarrow> length fs' = length (memoryFileSystem st))"
proof -
  let ?fs = "memoryFileSystem st"
  let ?D = "emptyEntry now DIRECTORY"
  define fse where "fse = snd (ensureParentDirectoriesExist now dst ?fs)"
  define sp where "sp = dirPrefix src"
  define dp where "dp = dirPrefix dst"
  have ps: "prefix ''/'' src" and pd: "prefix ''/'' dst"
    unfolding src dst by (rule normalizePath_slash)+
  have src_key: "src \<in> fst ` set ?fs"
    using map_of_SomeD [OF se] by force
  have sr: "src \<noteq> ''/''" using nin pd by (auto simp: dirPrefix_def)
  have dr: "dst \<noteq> ''/''" using und src_key ps by (auto simp: dirPrefix_def)
  have sp: "sp = src @ ''/''" and dp: "dp = dst @ ''/''"
    using sr dr by (simp_all add: sp_def dp_def dirPrefix_def)
  have sd: "src \<noteq> dst" using se de by auto
  have ndp: "\<not> prefix dp dst" using prefix_length_le [of dp dst] by (auto simp: dp)
  have nsp': "\<not> prefix sp src" using prefix_length_le [of sp src] by (auto simp: sp)
  have nsp: "sp @ r \<noteq> src" for r by (simp add: sp)
  have nsd: "sp @ r \<noteq> dst" for r using nin by (auto simp: sp_def prefix_def)
  have ec: "map_of fse k = map_of ?fs k \<or> (k \<in> set (ancestors dst) \<and> map_of fse k = Some ?D)" for k
    unfolding fse_def by (rule ensureParentDirectoriesExist_cases)
  have anc: "length k < length dst \<and> prefix (k @ ''/'') dst" if "k \<in> set (ancestors dst)" for k
    using that by (auto simp: ancestors_iff)
  have na_src: "src \<notin> set (ancestors dst)"
    using anc [of src] nin by (auto simp: sp_def [symmetric] sp)
  have na_dst: "dst \<notin> set (ancestors dst)" using anc [of dst] by auto
  have na_sp: "sp @ r \<notin> set (ancestors dst)" for r
  proof
    assume "sp @ r \<in> set (ancestors dst)"
    then have "prefix ((sp @ r) @ ''/'') dst" using anc by blast
    then have "prefix sp dst" unfolding prefix_def by auto
    then show False using nin by (simp add: sp_def)
  qed
  have na_dp: "k \<notin> set (ancestors dst)" if "prefix dp k" for k
    using anc [of k] prefix_length_le [OF that] by (auto simp: dp)
  have e_src: "map_of fse src = Some e" using ec [of src] na_src se by simp
  have e_dst: "map_of fse dst = None" using ec [of dst] na_dst de by simp
  have e_sp: "map_of fse (sp @ r) = map_of ?fs (sp @ r)" for r using ec [of "sp @ r"] na_sp by simp
  have nokey0: "map_of ?fs k = None" if "prefix dp k" for k
    using und that by (auto simp: map_of_eq_None_iff dp_def)
  have nokey: "map_of fse k = None" if "prefix dp k" for k
    using ec [of k] na_dp [OF that] nokey0 [OF that] by simp
  have diste: "distinct (map fst fse)"
    unfolding fse_def using dist by (rule ensureParentDirectoriesExist_distinct)
  have dst_key: "dst \<notin> fst ` set fse"
    using e_dst by (simp add: map_of_eq_None_iff)
  define fs1 where "fs1 = AList.update dst ?D fse"
  have m1: "map_of fs1 k = (if k = dst then Some ?D else map_of fse k)" for k
    by (simp add: fs1_def update_conv')
  have d1: "distinct (map fst fs1)"
    unfolding fs1_def using diste by (rule distinct_update)
  have nd: "normalizePath (currentDirectory st) dst = dst"
    unfolding dst by (rule normalizePath_idem)
  have ens: "ensureParentDirectoriesExist now dst ?fs = (True, fse)"
    using ensureParentDirectoriesExist_True [of now dst ?fs]
    by (cases "ensureParentDirectoriesExist now dst ?fs") (simp add: fse_def)
  have add: "addNewEntryInternal now st dst True = (Inr (), st\<lparr>memoryFileSystem := fs1\<rparr>)"
    using de by (simp add: addNewEntryInternal_def nd ens fs1_def)
  define etm where "etm = map (\<lambda>(k, e). (dp @ drop (length sp) k, e))
                    (filter (\<lambda>(k, e). k \<noteq> src \<and> prefix sp k) fs1)"
  define fs2 where "fs2 = fold (\<lambda>(k, e). AList.update k e) etm fs1"
  define fs3 where "fs3 = fold AList.delete (map fst (filter (\<lambda>(k, e). prefix sp k) fs2)) fs2"
  define fs' where "fs' = AList.delete src fs3"
  have res: "parseMoveCommand now st command = (Inr (), st\<lparr>memoryFileSystem := fs'\<rparr>)"
    using se dir de
    by (simp add: parseMoveCommand_def tok Let_def add
          flip: src dst sp_def dp_def etm_def fs2_def fs3_def fs'_def)
  have raw: "map_of fs' k =
           (if k = src \<or> prefix sp k then None
            else if prefix dp k \<and> sp @ drop (length dp) k \<noteq> src
                    \<and> map_of fs1 (sp @ drop (length dp) k) \<noteq> None
                 then map_of fs1 (sp @ drop (length dp) k)
            else map_of fs1 k)" for k
    unfolding fs'_def by (rule move_directory_map [OF etm_def fs2_def fs3_def d1])
  have excl: "\<not> (k = src \<or> prefix sp k)" if "prefix dp k" for k
  proof
    assume "k = src \<or> prefix sp k"
    then show False
    proof
      assume "k = src"
      with that und src_key show False by (auto simp: dp_def)
    next
      assume "prefix sp k"
      with that have "prefix sp dp \<or> prefix dp sp" using prefix_same_cases by blast
      then show False
      proof
        assume "prefix sp dp"
        then have "prefix sp dst \<or> sp = dp" unfolding dp by (auto simp: prefix_snoc)
        then show False using nin sd by (auto simp: sp_def [symmetric] sp dp)
      next
        assume "prefix dp sp"
        then have "prefix dp src \<or> dp = sp" unfolding sp by (auto simp: prefix_snoc)
        then show False using und src_key sd by (auto simp: dp_def [symmetric] sp dp)
      qed
    qed
  qed
  have m: "map_of fs' k =
            (if k = dst then Some ?D
             else if prefix dp k then map_of ?fs (sp @ drop (length dp) k)
             else if k = src \<or> prefix sp k then None
             else map_of fse k)" for k
  proof (cases "k = dst")
    case True
    then have "\<not> prefix dp k" using ndp by simp
    then show ?thesis using True nin sd by (simp add: raw m1 sp_def)
  next
    case False
    show ?thesis
    proof (cases "prefix dp k")
      case True
      then show ?thesis using False excl [OF True] nokey [OF True]
        by (simp add: raw m1 nsp nsd e_sp)
    next
      case np: False
      then show ?thesis using False by (simp add: raw m1)
    qed
  qed
  have dfs': "distinct (map fst fs')"
    unfolding fs'_def fs3_def fs2_def
    by (intro distinct_delete distinct_fold_delete distinct_fold_update d1)
  define Dsc where "Dsc = {k \<in> dom (map_of ?fs). prefix sp k}"
  define Oth where "Oth = {k \<in> dom (map_of fse). \<not> (k = src \<or> prefix sp k)}"
  define g where "g = (\<lambda>k. dp @ drop (length sp) k)"
  have Dsc_e: "Dsc = {k \<in> dom (map_of fse). prefix sp k}"
  proof -
    have "(map_of fse k \<noteq> None) = (map_of ?fs k \<noteq> None)" if "prefix sp k" for k
      using that e_sp unfolding prefix_def by auto
    then show ?thesis unfolding Dsc_def by (auto simp: dom_def)
  qed
  have fin: "finite Dsc" "finite Oth"
    unfolding Dsc_def Oth_def by (simp_all add: finite_dom_map_of)
  have gi: "inj_on g Dsc"
  proof (rule inj_onI)
    fix x y assume "x \<in> Dsc" "y \<in> Dsc" and e: "g x = g y"
    then obtain rx ry where "x = sp @ rx" "y = sp @ ry"
      unfolding Dsc_def prefix_def by blast
    with e show "x = y" by (simp add: g_def)
  qed
  have under: "{k \<in> dom (map_of fs'). prefix dp k} = g ` Dsc"
  proof (rule set_eqI, rule iffI)
    fix k assume "k \<in> {k \<in> dom (map_of fs'). prefix dp k}"
    then have p: "prefix dp k" and "map_of fs' k \<noteq> None" by auto
    then have kd: "k \<noteq> dst" and "map_of ?fs (sp @ drop (length dp) k) \<noteq> None"
      using m [of k] ndp by (auto split: if_splits)
    then have "sp @ drop (length dp) k \<in> Dsc" by (auto simp: Dsc_def)
    moreover have "g (sp @ drop (length dp) k) = k" using p by (auto simp: g_def prefix_def)
    ultimately show "k \<in> g ` Dsc" by (metis imageI)
  next
    fix k assume "k \<in> g ` Dsc"
    then obtain x where x: "x \<in> Dsc" "k = g x" by blast
    then obtain r where r: "x = sp @ r" unfolding Dsc_def prefix_def by blast
    have k: "k = dp @ r" and "sp @ r \<in> dom (map_of ?fs)"
      using x r by (simp_all add: g_def Dsc_def)
    then show "k \<in> {k \<in> dom (map_of fs'). prefix dp k}"
      using m [of k] by (auto simp: dp)
  qed
  have dom': "dom (map_of fs') = insert dst (g ` Dsc \<union> Oth)"
  proof (rule set_eqI)
    fix k
    show "(k \<in> dom (map_of fs')) = (k \<in> insert dst (g ` Dsc \<union> Oth))"
    proof (cases "prefix dp k")
      case True
      then have "k \<notin> Oth" using nokey [OF True] by (auto simp: Oth_def)
      moreover have "k \<noteq> dst" using True ndp by auto
      ultimately show ?thesis using under True by auto
    next
      case False
      then have "k \<notin> g ` Dsc" using under by blast
      then show ?thesis using False m [of k] e_dst
        by (auto simp: Oth_def dom_def split: if_splits)
    qed
  qed
  have dom0: "dom (map_of fse) = insert src (Dsc \<union> Oth)"
    using e_src unfolding Dsc_e by (auto simp: Oth_def)
  have "dst \<notin> g ` Dsc" using under ndp by auto
  moreover have "dst \<notin> Oth" using e_dst by (auto simp: Oth_def)
  moreover have "g ` Dsc \<inter> Oth = {}"
  proof -
    have "prefix dp (g x)" for x by (simp add: g_def)
    then show ?thesis using nokey by (fastforce simp: Oth_def)
  qed
  ultimately have c1: "card (dom (map_of fs')) = Suc (card Dsc + card Oth)"
    unfolding dom' using fin gi by (simp add: card_Un_disjoint card_image)
  have "src \<notin> Dsc" using nsp' by (simp add: Dsc_def)
  moreover have "src \<notin> Oth" by (simp add: Oth_def)
  moreover have "Dsc \<inter> Oth = {}" by (auto simp: Dsc_def Oth_def)
  ultimately have c0: "card (dom (map_of fse)) = Suc (card Dsc + card Oth)"
    unfolding dom0 using fin by (simp add: card_Un_disjoint)
  have len: "length fs' = length fse"
    using c0 c1 by (simp add: length_distinct_store [OF dfs'] length_distinct_store [OF diste])
  have cnt: "length (filter (\<lambda>(k, e). prefix dp k) fs') = length (filter (\<lambda>(k, e). prefix sp k) ?fs)"
    unfolding length_filter_keys [OF dfs'] length_filter_keys [OF dist] under
    using gi by (simp add: card_image Dsc_def)
  have ge: "length ?fs \<le> length fs'"
    unfolding len fse_def by (rule ensureParentDirectoriesExist_length)
  have same: "length fs' = length ?fs" if "directoryExists ?fs (getDirectoryFromPath dst)"
    unfolding len fse_def using that by (simp add: ensureParentDirectoriesExist_present)
  have ec': "\<forall>k. map_of fse k = map_of ?fs k
               \<or> (k \<in> set (ancestors dst) \<and> map_of fse k = Some ?D)"
    using ec by blast
  show ?thesis
    using res m cnt dfs' len ge same ec' unfolding sp_def dp_def fse_def by blast
qed

theorem move_directory_remaps_subtree_witness:
  "\<exists>fs'. parseMoveCommand ''n''
        \<lparr>memoryFileSystem = [(''/'', emptyEntry ''d'' DIRECTORY), ([], emptyEntry ''d'' DIRECTORY),
           (''/a'', emptyEntry ''d'' DIRECTORY), (''/a/f'', emptyEntry ''d'' FILE)],
         currentDirectory = ''/''\<rparr> ''mv /a /b''
      = (Inr (), \<lparr>memoryFileSystem = fs', currentDirectory = ''/''\<rparr>)
     \<and> map_of fs' ''/b'' = Some (emptyEntry ''n'' DIRECTORY)
     \<and> map_of fs' ''/b/f'' = Some (emptyEntry ''d'' FILE)
     \<and> map_of fs' ''/a'' = None \<and> map_of fs' ''/a/f'' = None
     \<and> length fs' = 4"
proof -
  let ?st = "\<lparr>memoryFileSystem = [(''/'', emptyEntry ''d'' DIRECTORY), ([], emptyEntry ''d'' DIRECTORY),
           (''/a'', emptyEntry ''d'' DIRECTORY), (''/a/f'', emptyEntry ''d'' FILE)],
         currentDirectory = ''/''\<rparr>"
  have tok: "tokenize ''mv /a /b'' CHR '' '' = [''mv'', ''/a'', ''/b'']" by code_simp
  have src: "''/a'' = normalizePath (currentDirectory ?st) ''/a''" by code_simp
  have dst: "''/b'' = normalizePath (currentDirectory ?st) ''/b''" by code_simp
  have dist: "distinct (map fst (memoryFileSystem ?st))" by simp
  have se: "map_of (memoryFileSystem ?st) ''/a'' = Some (emptyEntry ''d'' DIRECTORY)" by simp
  have dir: "type (emptyEntry ''d'' DIRECTORY) = DIRECTORY" by (simp add: emptyEntry_def)
  have de: "map_of (memoryFileSystem ?st) ''/b'' = None" by simp
  have nin: "\<not> prefix (dirPrefix ''/a'') ''/b''" by (simp add: dirPrefix_def)
  have und: "\<forall>k \<in> fst ` set (memoryFileSystem ?st). \<not> prefix (dirPrefix ''/b'') k"
    by (simp add: dirPrefix_def)
  have par: "directoryExists (memoryFileSystem ?st) (getDirectoryFromPath ''/b'')"
    by (simp add: getDirectoryFromPath_def find_last_of_def directoryExists_def emptyEntry_def)
  from move_directory_remaps_subtree [OF tok src dst dist se dir de nin und, of "''n''"]
  obtain fs' where r: "parseMoveCommand ''n'' ?st ''mv /a /b'' = (Inr (), ?st\<lparr>memoryFileSystem := fs'\<rparr>)"
    and m: "\<And>k. map_of fs' k =
            (if k = ''/b'' then Some (emptyEntry ''n'' DIRECTORY)
             else if prefix (dirPrefix ''/b'') k
               then map_of (memoryFileSystem ?st) (dirPrefix ''/a'' @ drop (length (dirPrefix ''/b'')) k)
             else if k = ''/a'' \<or> prefix (dirPrefix ''/a'') k then None
             else map_of (snd (ensureParentDirectoriesExist ''n'' ''/b'' (memoryFileSystem ?st))) k)"
    and l: "directoryExists (memoryFileSystem ?st) (getDirectoryFromPath ''/b'')
              \<longrightarrow> length fs' = length (memoryFileSystem ?st)"
    by blast
  have "length fs' = 4" using l par by simp
  then show ?thesis
    using r by (intro exI [of _ fs']) (simp add: m dirPrefix_def)
qed

subsection \<open>Saving and loading\<close>

lemma digit_cases:
  "d < 10 \<Longrightarrow> d = 0 \<or> d = 1 \<or> d = 2 \<or> d = 3 \<or> d = 4 \<or> d = 5 \<or> d = 6 \<or> d = 7 \<or> d = 8 \<or> d = (9::nat)"
  by arith

lemma digit_val_digit_char: "d < 10 \<Longrightarrow> digit_val (digit_char d) = d"
  by (drule digit_cases) (auto simp: digit_val_def digit_char_def)

lemma isdigit_digit_char: "d < 10 \<Longrightarrow> isdigit (digit_char d)"
  by (drule digit_cases) (auto simp: isdigit_def digit_char_def)

lemma decimal_digits: "c \<in> set (decimal n) \<Longrightarrow> isdigit c"
proof (induction n rule: decimal.induct)
  case (1 n)
  show ?case
  proof (cases "n < 10")
    case True
    then show ?thesis using "1.prems" by (subst (asm) decimal.simps) (simp add: isdigit_digit_char)
  next
    case False
    then have "c \<in> set (decimal (n div 10)) \<or> c = digit_char (n mod 10)"
      using "1.prems" by (subst (asm) decimal.simps) auto
    then show ?thesis using "1.IH" [OF False] by (auto simp: isdigit_digit_char)
  qed
qed

lemma decimal_nonempty: "decimal n \<noteq> []"
  by (subst decimal.simps) simp

lemma decimal_value: "foldl (\<lambda>a c. 10 * a + digit_val c) 0 (decimal n) = n"
proof (induction n rule: decimal.induct)
  case (1 n)
  show ?case
  proof (cases "n < 10")
    case True
    then show ?thesis by (subst decimal.simps) (simp add: digit_val_digit_char)
  next
    case False
    then show ?thesis using "1.IH" [OF False]
      by (subst decimal.simps) (simp add: digit_val_digit_char)
  qed
qed

lemma isdigit_plain:
  "isdigit c \<Longrightarrow> \<not> isspace c \<and> c \<noteq> CHR ''-'' \<and> c \<noteq> CHR ''+'' \<and> c \<noteq> CHR ''|'' \<and> c \<noteq> CHR 0x0A"
  by (auto simp: isdigit_def isspace_def)

lemma stoull_decimal: "n < 2 ^ 64 \<Longrightarrow> stoull (decimal n) = Inr (of_nat n)"
proof -
  assume n: "n < 2 ^ 64"
  obtain c cs where d: "decimal n = c # cs"
    using decimal_nonempty [of n] by (cases "decimal n") auto
  have c: "isdigit c" using decimal_digits [of c n] d by simp
  have all: "\<forall>x \<in> set (decimal n). isdigit x" using decimal_digits by blast
  have s1: "dropWhile isspace (decimal n) = decimal n"
    using c isdigit_plain [OF c] by (simp add: d)
  have h: "hd (decimal n) \<noteq> CHR ''-''" "hd (decimal n) \<noteq> CHR ''+''"
    using isdigit_plain [OF c] by (simp_all add: d)
  have tw: "takeWhile isdigit (decimal n) = decimal n"
    using all by (simp add: takeWhile_eq_all_conv)
  show ?thesis
    unfolding stoull_def Let_def s1 using h n decimal_nonempty [of n]
    by (simp add: tw decimal_value)
qed

lemma getline_field: "d \<notin> set f \<Longrightarrow> getline d (f @ d # rest) = Some (f, rest)"
proof -
  assume f: "d \<notin> set f"
  obtain c cs where e: "f @ d # rest = c # cs" by (cases "f @ d # rest") auto
  have "takeWhile (\<lambda>x. x \<noteq> d) (f @ d # rest) = f"
    using f by (induction f) auto
  moreover have "dropWhile (\<lambda>x. x \<noteq> d) (f @ d # rest) = d # rest"
    using f by (induction f) auto
  ultimately show ?thesis
    using getline.simps(2) [of d c cs] by (simp flip: e)
qed

lemma getlines_line: "d \<notin> set l \<Longrightarrow> getlines d (l @ d # rest) = l # getlines d rest"
  by (subst getlines.simps) (simp add: getline_field)

lemma getlines_concat:
  "\<forall>l \<in> set ls. d \<notin> set l \<Longrightarrow> getlines d (concat (map (\<lambda>l. l @ [d]) ls)) = ls"
  by (induction ls) (simp_all add: getlines_line)

lemma decimal_plain: "plain (decimal n)"
  using decimal_digits [of _ n] isdigit_plain by (auto simp: plain_def)

lemma dumpLine_no_newline: "dumpable_entry entry \<Longrightarrow> CHR 0x0A \<notin> set (dumpLine entry)"
  using decimal_plain [of "unat (sizeInBytes (snd entry))"]
  by (auto simp: dumpable_entry_def dumpLine_def plain_def)

lemma rest_of_line:
  "CHR 0x0A \<notin> set d \<Longrightarrow> (case getline (CHR 0x0A) d of None \<Rightarrow> [] | Some (t, r) \<Rightarrow> t) = d"
  by (cases d) (auto simp: takeWhile_eq_all_conv)

lemma loadLine_dumpLine:
  assumes "dumpable_entry (k, e)"
  shows "loadLine fs (dumpLine (k, e)) = Inr (AList.update k e fs)"
proof -
  let ?t = "if type e = FILE then ''FILE'' else ''DIR''"
  let ?n = "decimal (unat (sizeInBytes e))"
  let ?d = "if type e = FILE then data e else []"
  have p: "CHR ''|'' \<notin> set ?t" "CHR ''|'' \<notin> set k" "CHR ''|'' \<notin> set ?n"
    "CHR ''|'' \<notin> set (creationDate e)" "CHR ''|'' \<notin> set (modificationDate e)"
    using assms decimal_plain [of "unat (sizeInBytes e)"]
    by (auto simp: dumpable_entry_def plain_def)
  have l: "dumpLine (k, e) = ?t @ CHR ''|'' # (k @ CHR ''|'' # (?n @ CHR ''|'' #
             (creationDate e @ CHR ''|'' # (modificationDate e @ CHR ''|'' # ?d))))"
    by (simp add: dumpLine_def)
  have ne: "dumpLine (k, e) \<noteq> []" "front (dumpLine (k, e)) \<noteq> CHR ''#''"
    by (simp_all add: dumpLine_def front_def)
  have d: "CHR 0x0A \<notin> set ?d" "?d = data e"
    using assms by (auto simp: dumpable_entry_def)
  have s: "stoull ?n = Inr (sizeInBytes e)"
    using stoull_decimal [of "unat (sizeInBytes e)"] unsigned_less [of "sizeInBytes e"] by simp
  have t: "(if ?t = ''FILE'' then FILE else DIRECTORY) = type e"
    by (cases "type e") simp_all
  have "loadLine fs (dumpLine (k, e)) =
      Inr (AList.update k \<lparr>data = ?d, sizeInBytes = sizeInBytes e, creationDate = creationDate e,
             modificationDate = modificationDate e, type = type e\<rparr> fs)"
    unfolding loadLine_def using ne
    by (simp only: l getline_field [OF p(1)] getline_field [OF p(2)] getline_field [OF p(3)]
          getline_field [OF p(4)] getline_field [OF p(5)] rest_of_line [OF d(1)] s t
          option.case prod.case sum.case Let_def if_False simp_thms)
  moreover have "\<lparr>data = data e, sizeInBytes = sizeInBytes e, creationDate = creationDate e,
             modificationDate = modificationDate e, type = type e\<rparr> = e"
    by (cases e) simp
  ultimately show ?thesis by (simp only: d(2))
qed

lemma loadLine_comment: "front l = CHR ''#'' \<Longrightarrow> loadLine fs l = Inr fs"
  by (simp add: loadLine_def)

lemma loadLines_dump:
  "list_all dumpable_entry es \<Longrightarrow>
     loadLines fs (map dumpLine es) = (Inr (), fold (\<lambda>(k, e). AList.update k e) es fs)"
proof (induction es arbitrary: fs)
  case Nil
  then show ?case by simp
next
  case (Cons x es)
  obtain k e where x: "x = (k, e)" by (cases x)
  show ?case using Cons by (simp add: x loadLine_dumpLine)
qed

lemma getlines_dumpText:
  assumes "CHR 0x0A \<notin> set now" and "list_all dumpable_entry fs"
  shows "getlines (CHR 0x0A) (dumpText now fs) =
     (''# Memory File System Dump - '' @ now)
       # ''# Format: <type>|<path>|<size>|<created>|<modified>|<data>''
       # map dumpLine fs"
proof -
  have a: "\<forall>l \<in> set (map dumpLine fs). CHR 0x0A \<notin> set l"
    using assms(2) by (auto simp: list_all_iff dumpLine_no_newline)
  have h1: "CHR 0x0A \<notin> set (''# Memory File System Dump - '' @ now)" using assms(1) by simp
  have h2: "CHR 0x0A \<notin> set ''# Format: <type>|<path>|<size>|<created>|<modified>|<data>''" by simp
  have "dumpText now fs = (''# Memory File System Dump - '' @ now) @ CHR 0x0A #
      (''# Format: <type>|<path>|<size>|<created>|<modified>|<data>'' @ CHR 0x0A #
       concat (map (\<lambda>l. l @ [CHR 0x0A]) (map dumpLine fs)))"
    by (simp add: dumpText_def comp_def)
  then show ?thesis
    by (simp only: getlines_line [OF h1] getlines_line [OF h2] getlines_concat [OF a])
qed

lemma decimal_digit: "n < 10 \<Longrightarrow> decimal n = [digit_char n]"
  by (subst decimal.simps) simp

text \<open>
  Claim C5, as stated, fails: the path of an entry is written between two \<open>|\<close> with no
  escape, so a path that contains \<open>|\<close> is cut at it when the dump is loaded. The file
  \<open>/a|1\<close> comes back as \<open>/a\<close> with size 1 and the dates shifted into the data.
\<close>

theorem save_load_counterexample:
  "parseLoadCommand
     (snd (parseSaveCommand ''30/10/2026'' emptyDisk
        \<lparr>memoryFileSystem = [(''/a|1'', emptyEntry ''30/10/2026'' FILE)], currentDirectory = ''/''\<rparr>
        ''save dump''))
     \<lparr>memoryFileSystem = [], currentDirectory = ''/''\<rparr> ''load dump''
   = (Inr (),
      \<lparr>memoryFileSystem =
         [(''/a'', \<lparr>data = ''30/10/2026|'', sizeInBytes = 1, creationDate = ''0'',
                   modificationDate = ''30/10/2026'', type = FILE\<rparr>)],
       currentDirectory = ''/''\<rparr>)"
proof -
  have t1: "tokenize ''save dump'' CHR '' '' = [''save'', ''dump'']" by code_simp
  have t2: "tokenize ''load dump'' CHR '' '' = [''load'', ''dump'']" by code_simp
  have l: "dumpLine (''/a|1'', emptyEntry ''30/10/2026'' FILE) = ''FILE|/a|1|0|30/10/2026|30/10/2026|''"
    by (simp add: dumpLine_def emptyEntry_def decimal_digit digit_char_def)
  have g: "getlines (CHR 0x0A) (dumpText ''30/10/2026'' [(''/a|1'', emptyEntry ''30/10/2026'' FILE)])
      = [''# Memory File System Dump - 30/10/2026'',
         ''# Format: <type>|<path>|<size>|<created>|<modified>|<data>'',
         ''FILE|/a|1|0|30/10/2026|30/10/2026|'']"
    by (simp add: dumpText_def l)
  have s: "stoull ''1'' = Inr 1"
    by (simp add: stoull_def isspace_def isdigit_def digit_val_def)
  have p: "loadLine [] ''FILE|/a|1|0|30/10/2026|30/10/2026|''
      = Inr [(''/a'', \<lparr>data = ''30/10/2026|'', sizeInBytes = 1, creationDate = ''0'',
                   modificationDate = ''30/10/2026'', type = FILE\<rparr>)]"
    by (simp add: loadLine_def front_def s)
  show ?thesis
    by (simp add: parseLoadCommand_def parseSaveCommand_def emptyDisk_def t1 t2 g p
          loadLine_comment front_def)
qed

text \<open>
  Claim C5, amended. For a store in which no path and no date contains \<open>|\<close> or a line
  feed, no data contains a line feed and every directory has empty data, on a date without
  a line feed and with a file that can be opened for writing and for reading: the save
  succeeds, and loading the saved file, into any state, succeeds and yields a store with the
  same keys and, for each key, the same entry (kind, size, dates, data), whatever the order
  of the entries.
\<close>

theorem save_load_round_trip:
  assumes "tokenize saveCommand CHR '' '' = [c1, filename]"
    and "tokenize loadCommand CHR '' '' = [c2, filename]"
    and "writable dk filename" and "readable dk filename"
    and "distinct (map fst (memoryFileSystem st))"
    and "list_all dumpable_entry (memoryFileSystem st)"
    and "CHR 0x0A \<notin> set now"
  shows "\<exists>fs'. fst (parseSaveCommand now dk st saveCommand) = Inr ()
          \<and> parseLoadCommand (snd (parseSaveCommand now dk st saveCommand)) st' loadCommand
            = (Inr (), st'\<lparr>memoryFileSystem := fs'\<rparr>)
          \<and> map_of fs' = map_of (memoryFileSystem st)"
proof -
  let ?fs = "memoryFileSystem st"
  let ?hdr1 = "''# Memory File System Dump - '' @ now"
  let ?hdr2 = "''# Format: <type>|<path>|<size>|<created>|<modified>|<data>''"
  let ?fs' = "fold (\<lambda>(k, e). AList.update k e) ?fs []"
  let ?dk = "snd (parseSaveCommand now dk st saveCommand)"
  have sv: "fst (parseSaveCommand now dk st saveCommand) = Inr ()"
    using assms(1,3) by (simp add: parseSaveCommand_def)
  have dk: "contents ?dk filename = Some (dumpText now ?fs)" "readable ?dk filename"
    using assms(1,3,4) by (simp_all add: parseSaveCommand_def)
  have h: "loadLine [] ?hdr1 = Inr []" "loadLine [] ?hdr2 = Inr []"
    by (simp_all add: loadLine_comment front_def)
  have "loadLines [] (getlines (CHR 0x0A) (dumpText now ?fs)) = (Inr (), ?fs')"
    unfolding getlines_dumpText [OF assms(7,6)] loadLines.simps h sum.case
    by (rule loadLines_dump [OF assms(6)])
  then have "parseLoadCommand ?dk st' loadCommand = (Inr (), st'\<lparr>memoryFileSystem := ?fs'\<rparr>)"
    using assms(2) dk by (simp add: parseLoadCommand_def)
  moreover have "map_of ?fs' = map_of ?fs"
    using assms(5) by (simp add: map_of_fold_update map_of_rev_distinct)
  ultimately show ?thesis using sv by blast
qed

theorem save_load_round_trip_witness:
  "\<exists>fs'. parseLoadCommand
       (snd (parseSaveCommand ''30/10/2026'' emptyDisk
          \<lparr>memoryFileSystem =
             [(''/'', emptyEntry ''29/10/2026'' DIRECTORY), ([], emptyEntry ''29/10/2026'' DIRECTORY),
              (''/docs'', emptyEntry ''29/10/2026'' DIRECTORY),
              (''/docs/readme.txt'', \<lparr>data = ''a|b'', sizeInBytes = 3, creationDate = ''29/10/2026'',
                   modificationDate = ''30/10/2026'', type = FILE\<rparr>)],
           currentDirectory = ''/docs''\<rparr> ''save dump''))
       \<lparr>memoryFileSystem = [], currentDirectory = ''/''\<rparr> ''load dump''
     = (Inr (), \<lparr>memoryFileSystem = fs', currentDirectory = ''/''\<rparr>)
   \<and> map_of fs' ''/docs/readme.txt''
       = Some \<lparr>data = ''a|b'', sizeInBytes = 3, creationDate = ''29/10/2026'',
                modificationDate = ''30/10/2026'', type = FILE\<rparr>
   \<and> map_of fs' ''/docs'' = Some (emptyEntry ''29/10/2026'' DIRECTORY)
   \<and> map_of fs' ''/other'' = None"
proof -
  let ?st = "\<lparr>memoryFileSystem =
             [(''/'', emptyEntry ''29/10/2026'' DIRECTORY), ([], emptyEntry ''29/10/2026'' DIRECTORY),
              (''/docs'', emptyEntry ''29/10/2026'' DIRECTORY),
              (''/docs/readme.txt'', \<lparr>data = ''a|b'', sizeInBytes = 3, creationDate = ''29/10/2026'',
                   modificationDate = ''30/10/2026'', type = FILE\<rparr>)],
           currentDirectory = ''/docs''\<rparr>"
  have t1: "tokenize ''save dump'' CHR '' '' = [''save'', ''dump'']" by code_simp
  have t2: "tokenize ''load dump'' CHR '' '' = [''load'', ''dump'']" by code_simp
  have d: "distinct (map fst (memoryFileSystem ?st))" by simp
  have a: "list_all dumpable_entry (memoryFileSystem ?st)"
    by (simp add: dumpable_entry_def plain_def emptyEntry_def)
  have n: "CHR 0x0A \<notin> set ''30/10/2026''" by simp
  have o: "writable emptyDisk ''dump''" "readable emptyDisk ''dump''" by (simp_all add: emptyDisk_def)
  from save_load_round_trip [OF t1 t2 o d a n, of "\<lparr>memoryFileSystem = [], currentDirectory = ''/''\<rparr>"]
  obtain fs' where "parseLoadCommand (snd (parseSaveCommand ''30/10/2026'' emptyDisk ?st ''save dump''))
       \<lparr>memoryFileSystem = [], currentDirectory = ''/''\<rparr> ''load dump''
     = (Inr (), \<lparr>memoryFileSystem = fs', currentDirectory = ''/''\<rparr>)"
    and "map_of fs' = map_of (memoryFileSystem ?st)"
    by auto
  then show ?thesis by (intro exI [of _ fs']) simp
qed

subsection \<open>The keys of the store and the parent directories\<close>

lemma keys_canonical_iff: "keys_canonical fs = (\<forall>k \<in> fst ` set fs. k = [] \<or> canonical k)"
  by (auto simp: keys_canonical_def list_all_iff)



lemma getDirectoryFromPath_empty [simp]: "getDirectoryFromPath [] = ''/''"
  by (simp add: getDirectoryFromPath_def find_last_of_def)







lemma canonical_tail:
  "canonical k \<Longrightarrow> k \<noteq> ''/'' \<Longrightarrow>
     \<exists>r. k = CHR ''/'' # r \<and> list_all valid_segment (split_on CHR ''/'' r)"
  by (auto simp: canonical_def split: list.splits)













lemma parent_stored_iff:
  "parent_stored fs =
     (\<forall>k. map_of fs k \<noteq> None \<longrightarrow>
        k = [] \<or> k = ''/'' \<or> directoryExists fs (getDirectoryFromPath k))"
proof -
  have "(map_of fs k \<noteq> None) = (k \<in> fst ` set fs)" for k
    by (simp add: map_of_eq_None_iff)
  then show ?thesis by (auto simp: parent_stored_def list_all_iff)
qed


lemma canonical_parent:
  assumes c: "canonical k" and n: "k \<noteq> ''/''"
  shows "(\<exists>b. k = getDirectoryFromPath k @ CHR ''/'' # b) \<and> getDirectoryFromPath k \<noteq> ''/''"
proof -
  obtain r where p: "k = CHR ''/'' # r" and v: "list_all valid_segment (split_on CHR ''/'' r)"
    using canonical_tail [OF c n] by blast
  then obtain i where f: "find_last_of k CHR ''/'' = Some i" by (simp add: find_last_of_def)
  have g: "getDirectoryFromPath k = take i k" by (simp add: getDirectoryFromPath_def f)
  note s = find_last_of_split [OF f]
  have "take i k \<noteq> ''/''"
  proof
    assume t: "take i k = ''/''"
    from s have "length (take i k) = i" by simp
    with t have i: "i = 1" by simp
    from s have "k = ''/'' @ CHR ''/'' # drop (Suc i) k" by (simp add: t)
    then have "r = CHR ''/'' # drop 2 k" using i by (simp add: p)
    then have "split_on CHR ''/'' r = [] # split_on CHR ''/'' (drop 2 k)"
      by (metis split_on.simps(2))
    then show False using v by (simp add: valid_segment_def)
  qed
  moreover have "k = take i k @ CHR ''/'' # drop (Suc i) k" using s by simp
  ultimately show ?thesis unfolding g by blast
qed














lemma canonical_key:
  "keys_canonical fs \<Longrightarrow> map_of fs k \<noteq> None \<Longrightarrow> k \<noteq> [] \<Longrightarrow> canonical k"
proof -
  assume K: "keys_canonical fs" and "map_of fs k \<noteq> None" and n: "k \<noteq> []"
  then have "k \<in> fst ` set fs" by (simp add: map_of_eq_None_iff)
  then show ?thesis using K n by (auto simp: keys_canonical_iff)
qed

lemma ancestors_stored:
  assumes K: "keys_canonical fs" and P: "parent_stored fs"
  shows "map_of fs k \<noteq> None \<Longrightarrow> k \<noteq> ''/'' \<Longrightarrow> a \<in> set (ancestors k) \<Longrightarrow> directoryExists fs a"
proof (induction k rule: length_induct)
  case (1 k)
  from "1.prems"(3) obtain rest where kr: "k = a @ CHR ''/'' # rest" by (auto simp: ancestors_iff)
  then have kn: "k \<noteq> []" by auto
  have ck: "canonical k" by (rule canonical_key [OF K "1.prems"(1) kn])
  let ?d = "getDirectoryFromPath k"
  obtain i where f: "find_last_of k CHR ''/'' = Some i"
    using kr by (simp add: find_last_of_def)
  note s = find_last_of_split [OF f]
  have d: "?d = take i k" by (simp add: getDirectoryFromPath_def f)
  have e: "a @ CHR ''/'' # rest = ?d @ CHR ''/'' # drop (Suc i) k"
    unfolding d kr [symmetric] using s by blast
  have dn: "?d \<noteq> ''/''" using canonical_parent [OF ck "1.prems"(2)] by simp
  have de: "directoryExists fs ?d"
    using P "1.prems"(1,2) kn unfolding parent_stored_iff by blast
  from e [unfolded append_eq_append_conv2]
  obtain us where "a = ?d @ us \<and> us @ CHR ''/'' # rest = CHR ''/'' # drop (Suc i) k
                   \<or> a @ us = ?d \<and> CHR ''/'' # rest = us @ CHR ''/'' # drop (Suc i) k"
    by blast
  then show ?case
  proof
    assume u: "a = ?d @ us \<and> us @ CHR ''/'' # rest = CHR ''/'' # drop (Suc i) k"
    show ?thesis
    proof (cases us)
      case Nil
      then show ?thesis using u de by simp
    next
      case (Cons c us')
      then have "drop (Suc i) k = us' @ CHR ''/'' # rest" using u by simp
      then have "CHR ''/'' \<in> set (drop (Suc i) k)" by simp
      then show ?thesis using s by blast
    qed
  next
    assume u: "a @ us = ?d \<and> CHR ''/'' # rest = us @ CHR ''/'' # drop (Suc i) k"
    show ?thesis
    proof (cases us)
      case Nil
      then show ?thesis using u de by simp
    next
      case (Cons c us')
      then have "?d = a @ CHR ''/'' # us'" using u by auto
      then have ad: "a \<in> set (ancestors ?d)" unfolding ancestors_iff by blast
      have l: "length ?d < length k" using s d by simp
      have md: "map_of fs ?d \<noteq> None" using de by (auto simp: directoryExists_def split: option.splits)
      show ?thesis using "1.IH" l md dn ad by blast
    qed
  qed
qed

lemma parents_stored_iff:
  "parents_stored fs =
     (\<forall>k a. map_of fs k \<noteq> None \<longrightarrow> k \<noteq> ''/'' \<longrightarrow> a \<in> set (ancestors k) \<longrightarrow> directoryExists fs a)"
proof -
  have "(map_of fs k \<noteq> None) = (k \<in> fst ` set fs)" for k
    by (simp add: map_of_eq_None_iff)
  then show ?thesis by (auto simp: parents_stored_def list_all_iff)
qed

lemma parents_stored:
  "keys_canonical fs \<Longrightarrow> parent_stored fs \<Longrightarrow> parents_stored fs"
  unfolding parents_stored_iff using ancestors_stored by blast

















end
